theory Spec2Isabelle
  imports Main "HOL-Library.Sublist" "HOL-Library.Monad_Syntax"
begin

section \<open>Python values used by app.py\<close>

text \<open>
  A Python \<open>str\<close> is a sequence of Unicode code points. It is modelled as a list of
  natural numbers, one per code point, so that code points above 255 (which
  \<open>str.encode("latin1")\<close> rejects) exist in the model. \<open>ustr\<close> turns an ASCII literal
  into such a list.
\<close>

type_synonym ustr = "nat list"

definition ustr :: "string \<Rightarrow> ustr" where
  "ustr s = map of_char s"

text \<open>The exceptions that the modelled code can raise.\<close>

datatype exn =
    UnicodeEncodeError
  | UnicodeDecodeError
  | JSONDecodeError
  | AttributeError
  | TypeError
  | KeyError
  | IndexError
  | RequestException

subsection \<open>String methods\<close>

text \<open>
  \<open>Py_UNICODE_ISSPACE\<close>: the code points that \<open>str.strip()\<close> removes and that \<open>\s\<close>
  matches in a \<open>str\<close> pattern.
\<close>

definition py_isspace :: "nat \<Rightarrow> bool" where
  "py_isspace c \<longleftrightarrow>
     (9 \<le> c \<and> c \<le> 13) \<or> (28 \<le> c \<and> c \<le> 32) \<or> c = 133 \<or> c = 160 \<or> c = 5760 \<or>
     (8192 \<le> c \<and> c \<le> 8202) \<or> c = 8232 \<or> c = 8233 \<or> c = 8239 \<or> c = 8287 \<or> c = 12288"

definition py_strip :: "ustr \<Rightarrow> ustr" where
  "py_strip s = rev (dropWhile py_isspace (rev (dropWhile py_isspace s)))"

definition py_startswith :: "ustr \<Rightarrow> ustr \<Rightarrow> bool" where
  "py_startswith s p \<longleftrightarrow> take (length p) s = p"

definition py_endswith :: "ustr \<Rightarrow> ustr \<Rightarrow> bool" where
  "py_endswith s p \<longleftrightarrow> length p \<le> length s \<and> drop (length s - length p) s = p"

text \<open>\<open>s.endswith((p1, p2, ...))\<close> with a tuple of suffixes.\<close>

definition py_endswith_any :: "ustr \<Rightarrow> ustr list \<Rightarrow> bool" where
  "py_endswith_any s ps \<longleftrightarrow> list_ex (py_endswith s) ps"

text \<open>
  \<open>s.split(sep, 1)\<close> for a non-empty separator: the text before the first occurrence of
  \<open>sep\<close> and the text after it, or the whole string alone when \<open>sep\<close> does not occur.
\<close>

fun py_split1 :: "ustr \<Rightarrow> ustr \<Rightarrow> ustr list" where
  "py_split1 sep [] = [[]]"
| "py_split1 sep (c # cs) =
     (if py_startswith (c # cs) sep then [[], drop (length sep) (c # cs)]
      else (case py_split1 sep cs of
              a # rest \<Rightarrow> (c # a) # rest
            | [] \<Rightarrow> [[c]]))"

text \<open>\<open>xs[i]\<close> for a non-negative index \<open>i\<close>.\<close>

definition py_item :: "'a list \<Rightarrow> nat \<Rightarrow> exn + 'a" where
  "py_item xs i = (if i < length xs then Inr (xs ! i) else Inl IndexError)"

text \<open>
  \<open>str.lower()\<close>. The model is exact on ASCII and on the Kelvin sign (U+212A, whose
  lower case is the ASCII letter k). Every other code point is mapped to itself: Python
  maps the remaining cased letters to code points outside ASCII (U+0130 to \<open>i\<close> followed
  by U+0307), and app.py only ever tests the result of \<open>lower()\<close> with \<open>endswith\<close>
  against the ASCII suffixes \<open>.mp4 .mov .webm .mkv\<close>, none of which contains \<open>i\<close>.
\<close>

definition lower_cp :: "nat \<Rightarrow> nat" where
  "lower_cp c = (if 65 \<le> c \<and> c \<le> 90 then c + 32 else if c = 8490 then 107 else c)"

definition py_lower :: "ustr \<Rightarrow> ustr" where
  "py_lower s = map lower_cp s"

text \<open>\<open>sep.join(xs)\<close>.\<close>

fun py_join :: "ustr \<Rightarrow> ustr list \<Rightarrow> ustr" where
  "py_join sep [] = []"
| "py_join sep [x] = x"
| "py_join sep (x # y # ys) = x @ sep @ py_join sep (y # ys)"

text \<open>\<open>xs[-n:]\<close> for \<open>n > 0\<close>: the last \<open>n\<close> elements, or all of them when there are fewer.\<close>

definition py_last_n :: "nat \<Rightarrow> 'a list \<Rightarrow> 'a list" where
  "py_last_n n xs = drop (length xs - n) xs"

subsection \<open>Codecs\<close>

text \<open>
  \<open>text.encode("latin1")\<close>: one byte per code point, \<open>UnicodeEncodeError\<close> when a code
  point is above 255.
\<close>

definition encode_latin1 :: "ustr \<Rightarrow> exn + nat list" where
  "encode_latin1 s = (if list_all (\<lambda>c. c < 256) s then Inr s else Inl UnicodeEncodeError)"

definition cont_byte :: "nat \<Rightarrow> bool" where
  "cont_byte b \<longleftrightarrow> 128 \<le> b \<and> b \<le> 191"

text \<open>
  \<open>bytes.decode("utf-8")\<close> with the default strict error handler: overlong forms,
  surrogates and values above U+10FFFF are rejected.
\<close>

fun utf8_chars :: "nat list \<Rightarrow> ustr option" where
  "utf8_chars [] = Some []"
| "utf8_chars (b # bs) =
     (if b < 128 then map_option ((#) b) (utf8_chars bs)
      else if 194 \<le> b \<and> b \<le> 223 then
        (case bs of
           c1 # r \<Rightarrow>
             if cont_byte c1
             then map_option ((#) ((b - 192) * 64 + (c1 - 128))) (utf8_chars r)
             else None
         | _ \<Rightarrow> None)
      else if 224 \<le> b \<and> b \<le> 239 then
        (case bs of
           c1 # c2 # r \<Rightarrow>
             if cont_byte c1 \<and> cont_byte c2 \<and> (b = 224 \<longrightarrow> 160 \<le> c1) \<and> (b = 237 \<longrightarrow> c1 \<le> 159)
             then map_option ((#) ((b - 224) * 4096 + (c1 - 128) * 64 + (c2 - 128)))
                    (utf8_chars r)
             else None
         | _ \<Rightarrow> None)
      else if 240 \<le> b \<and> b \<le> 244 then
        (case bs of
           c1 # c2 # c3 # r \<Rightarrow>
             if cont_byte c1 \<and> cont_byte c2 \<and> cont_byte c3 \<and>
                (b = 240 \<longrightarrow> 144 \<le> c1) \<and> (b = 244 \<longrightarrow> c1 \<le> 143)
             then map_option
                    ((#) ((b - 240) * 262144 + (c1 - 128) * 4096 + (c2 - 128) * 64 + (c3 - 128)))
                    (utf8_chars r)
             else None
         | _ \<Rightarrow> None)
      else None)"

definition decode_utf8 :: "nat list \<Rightarrow> exn + ustr" where
  "decode_utf8 bs = (case utf8_chars bs of Some s \<Rightarrow> Inr s | None \<Rightarrow> Inl UnicodeDecodeError)"

section \<open>normalize_stream_text (app.py, lines 104-108)\<close>

text \<open>
  \<^verbatim>\<open>
  def normalize_stream_text(text: str) -> str:
      try:
          return text.encode("latin1").decode("utf-8")
      except UnicodeDecodeError:
          return text
  \<close>
  The handler names \<open>UnicodeDecodeError\<close> only, so an exception of \<open>encode\<close> leaves the
  function.
\<close>

definition normalize_stream_text :: "ustr \<Rightarrow> exn + ustr" where
  "normalize_stream_text text =
     (case encode_latin1 text of
        Inl e \<Rightarrow> (if e = UnicodeDecodeError then Inr text else Inl e)
      | Inr bs \<Rightarrow>
          (case decode_utf8 bs of
             Inl e \<Rightarrow> (if e = UnicodeDecodeError then Inr text else Inl e)
           | Inr s \<Rightarrow> Inr s))"

section \<open>extract_first_url (app.py, lines 111-113)\<close>

text \<open>
  \<^verbatim>\<open>
  def extract_first_url(text: str) -> Optional[str]:
      urls = re.findall(r"https?://[^\s]+", text)
      return urls[0] if urls else None
  \<close>
  \<open>match_url_at\<close> is a match of the pattern anchored at the start of the text: \<open>http\<close>, an
  optional \<open>s\<close>, \<open>://\<close>, then as many non-whitespace code points as there are, at least
  one. It gives the matched text and what follows it.
\<close>

definition match_url_at :: "ustr \<Rightarrow> (ustr \<times> ustr) option" where
  "match_url_at t =
     (let n = (if py_startswith t (ustr ''https://'') then 8
               else if py_startswith t (ustr ''http://'') then 7 else 0);
          body = takeWhile (\<lambda>c. \<not> py_isspace c) (drop n t)
      in if n = 0 \<or> body = [] then None
         else Some (take n t @ body, dropWhile (\<lambda>c. \<not> py_isspace c) (drop n t)))"

lemma match_url_at_shorter:
  assumes "match_url_at t = Some (m, rest)"
  shows "length rest < length t"
proof -
  let ?P = "\<lambda>c. \<not> py_isspace c"
  from assms have "rest = dropWhile ?P (drop 8 t) \<or> rest = dropWhile ?P (drop 7 t)"
    by (auto simp: match_url_at_def Let_def split: if_splits)
  then have "length rest \<le> length (drop 7 t)"
    using length_dropWhile_le [of ?P "drop 8 t"] length_dropWhile_le [of ?P "drop 7 t"]
    by auto
  moreover from assms have "t \<noteq> []"
    by (auto simp: match_url_at_def py_startswith_def ustr_def)
  ultimately show ?thesis
    by (cases t) auto
qed

text \<open>
  \<open>re.findall\<close>: the non-overlapping matches from left to right; after a match the scan
  goes on behind it, where nothing matches it moves one code point on.
\<close>

function re_findall_url :: "ustr \<Rightarrow> ustr list" where
  "re_findall_url [] = []"
| "re_findall_url (c # cs) =
     (case match_url_at (c # cs) of
        None \<Rightarrow> re_findall_url cs
      | Some (m, rest) \<Rightarrow> m # re_findall_url rest)"
  by pat_completeness auto
termination
  by (relation "measure length") (auto dest: match_url_at_shorter)

definition extract_first_url :: "ustr \<Rightarrow> ustr option" where
  "extract_first_url text =
     (let urls = re_findall_url text in case urls of [] \<Rightarrow> None | u # _ \<Rightarrow> Some u)"

section \<open>json.loads\<close>

text \<open>
  The values that \<open>json.loads\<close> returns. A float keeps its sign, its decimal digits and
  its decimal exponent (\<open>JFloat neg m e\<close> is \<open>\<plusminus> m * 10 ^ e\<close>) in place of the rounded
  double: app.py only tests a float for truth. An object keeps its members in the order
  of the text, a later member overriding an earlier one of the same name.
\<close>

datatype json =
    JNull
  | JBool bool
  | JInt int
  | JFloat bool nat int
  | JNaN
  | JInfinity bool
  | JStr ustr
  | JList "json list"
  | JDict "(ustr \<times> json) list"

definition json_ws :: "nat \<Rightarrow> bool" where
  "json_ws c \<longleftrightarrow> c = 32 \<or> c = 9 \<or> c = 10 \<or> c = 13"

definition skip_ws :: "ustr \<Rightarrow> ustr" where
  "skip_ws s = dropWhile json_ws s"

definition is_digit :: "nat \<Rightarrow> bool" where
  "is_digit c \<longleftrightarrow> 48 \<le> c \<and> c \<le> 57"

text \<open>The value of a run of decimal digits.\<close>

definition digits_val :: "ustr \<Rightarrow> nat" where
  "digits_val ds = foldl (\<lambda>a d. 10 * a + (d - 48)) 0 ds"

definition hexval :: "nat \<Rightarrow> nat option" where
  "hexval c =
     (if 48 \<le> c \<and> c \<le> 57 then Some (c - 48)
      else if 97 \<le> c \<and> c \<le> 102 then Some (c - 87)
      else if 65 \<le> c \<and> c \<le> 70 then Some (c - 55)
      else None)"

definition hex4 :: "nat \<Rightarrow> nat \<Rightarrow> nat \<Rightarrow> nat \<Rightarrow> nat option" where
  "hex4 a b c d =
     (case (hexval a, hexval b, hexval c, hexval d) of
        (Some x, Some y, Some z, Some w) \<Rightarrow> Some (((x * 16 + y) * 16 + z) * 16 + w)
      | _ \<Rightarrow> None)"

text \<open>The character that follows a backslash, other than \<open>u\<close>.\<close>

definition escape_char :: "nat \<Rightarrow> nat option" where
  "escape_char e =
     (if e = 34 \<or> e = 92 \<or> e = 47 then Some e
      else if e = 98 then Some 8
      else if e = 102 then Some 12
      else if e = 110 then Some 10
      else if e = 114 then Some 13
      else if e = 116 then Some 9
      else None)"

text \<open>
  One escape sequence, from behind the backslash: the code point it stands for and the
  text behind it. An unknown escape and a bad \<open>\uXXXX\<close> are errors (\<open>None\<close>). A high
  surrogate followed by an escaped low surrogate gives one code point; any other
  surrogate is kept as it is.
\<close>

definition read_u :: "ustr \<Rightarrow> (nat \<times> ustr) option" where
  "read_u r =
     (case r of
        h1 # h2 # h3 # h4 # r1 \<Rightarrow>
          (case hex4 h1 h2 h3 h4 of
             None \<Rightarrow> None
           | Some v \<Rightarrow>
               if 55296 \<le> v \<and> v \<le> 56319 then
                 (case r1 of
                    b # u # l1 # l2 # l3 # l4 # r3 \<Rightarrow>
                      if b = 92 \<and> u = 117 then
                        (case hex4 l1 l2 l3 l4 of
                           None \<Rightarrow> None
                         | Some w \<Rightarrow>
                             if 56320 \<le> w \<and> w \<le> 57343
                             then Some (65536 + (v - 55296) * 1024 + (w - 56320), r3)
                             else Some (v, r1))
                      else Some (v, r1)
                  | _ \<Rightarrow> Some (v, r1))
               else Some (v, r1))
      | _ \<Rightarrow> None)"

definition read_escape :: "ustr \<Rightarrow> (nat \<times> ustr) option" where
  "read_escape cs =
     (case cs of
        [] \<Rightarrow> None
      | e # r \<Rightarrow>
          if e = 117 then read_u r
          else (case escape_char e of None \<Rightarrow> None | Some x \<Rightarrow> Some (x, r)))"

lemma read_u_shorter:
  assumes "read_u r = Some (x, rest)"
  shows "length rest < length r"
proof -
  from assms obtain h1 h2 h3 h4 r1 where r: "r = h1 # h2 # h3 # h4 # r1"
    by (auto simp: read_u_def split: list.splits)
  from assms have "rest = r1 \<or> (\<exists>b u l1 l2 l3 l4. r1 = b # u # l1 # l2 # l3 # l4 # rest)"
    unfolding r read_u_def
    by (simp split: option.splits if_splits list.splits)
  then show ?thesis
    unfolding r by auto
qed

lemma read_escape_shorter:
  "read_escape cs = Some (x, rest) \<Longrightarrow> length rest < length cs"
  by (cases cs)
     (auto simp: read_escape_def dest: read_u_shorter split: if_splits option.splits)

text \<open>
  \<open>scanstring\<close> in strict mode, from behind the opening quote: the decoded string and the
  text behind the closing quote. A control character below U+0020, a bad escape and a
  missing closing quote are errors (\<open>None\<close>).
\<close>

function scanstring :: "ustr \<Rightarrow> ustr \<Rightarrow> (ustr \<times> ustr) option" where
  "scanstring [] acc = None"
| "scanstring (c # cs) acc =
     (if c = 34 then Some (acc, cs)
      else if c = 92 then
        (case read_escape cs of
           None \<Rightarrow> None
         | Some (x, r) \<Rightarrow> scanstring r (acc @ [x]))
      else if c < 32 then None
      else scanstring cs (acc @ [c]))"
  by pat_completeness auto
termination
  by (relation "measure (\<lambda>(s, acc). length s)") (auto dest: read_escape_shorter)

lemma scanstring_shorter:
  "scanstring s acc = Some (t, rest) \<Longrightarrow> length rest < length s"
proof (induction s acc rule: scanstring.induct)
  case (1 acc)
  then show ?case by simp
next
  case (2 c cs acc)
  show ?case
  proof (cases "c = 34")
    case True
    with 2 show ?thesis by simp
  next
    case False
    show ?thesis
    proof (cases "c = 92")
      case True
      with 2(3) obtain x r where e: "read_escape cs = Some (x, r)"
        and s: "scanstring r (acc @ [x]) = Some (t, rest)"
        by (auto split: option.splits)
      from 2(1) [OF False True e refl s] read_escape_shorter [OF e]
      show ?thesis by simp
    next
      case c: False
      with False 2(3) have lt: "\<not> c < 32" and s: "scanstring cs (acc @ [c]) = Some (t, rest)"
        by (auto split: if_splits)
      from 2(2) [OF False c lt s] show ?thesis by simp
    qed
  qed
qed

text \<open>
  The number behind its digits: an optional fraction (a dot and at least one digit) and
  an optional exponent (\<open>e\<close> or \<open>E\<close>, an optional sign, at least one digit). A number with
  neither is an \<open>int\<close>.
\<close>

definition number_tail :: "bool \<Rightarrow> ustr \<Rightarrow> ustr \<Rightarrow> json \<times> ustr" where
  "number_tail neg ds s =
     (let (frac, s1) =
            (case s of
               d # f # r \<Rightarrow>
                 if d = 46 \<and> is_digit f then (f # takeWhile is_digit r, dropWhile is_digit r)
                 else ([], s)
             | _ \<Rightarrow> ([], s));
          (ex, s2) =
            (case s1 of
               e # r \<Rightarrow>
                 if e = 101 \<or> e = 69 then
                   (let (sg, r1) =
                          (case r of
                             g # r' \<Rightarrow>
                               if g = 45 then (- 1, r') else if g = 43 then (1, r') else (1, r)
                           | [] \<Rightarrow> (1, r));
                        eds = takeWhile is_digit r1
                    in if eds = [] then (None, s1)
                       else (Some (sg * int (digits_val eds)), dropWhile is_digit r1))
                 else (None, s1)
             | [] \<Rightarrow> (None, s1))
      in if frac = [] \<and> ex = None
         then (JInt (if neg then - int (digits_val ds) else int (digits_val ds)), s2)
         else (JFloat neg (digits_val (ds @ frac))
                 ((case ex of None \<Rightarrow> 0 | Some x \<Rightarrow> x) - int (length frac)), s2))"

definition match_number :: "ustr \<Rightarrow> (json \<times> ustr) option" where
  "match_number s =
     (let (neg, s1) = (case s of c # r \<Rightarrow> if c = 45 then (True, r) else (False, s)
                               | [] \<Rightarrow> (False, s))
      in case s1 of
           [] \<Rightarrow> None
         | d # r \<Rightarrow>
             if 49 \<le> d \<and> d \<le> 57
             then Some (number_tail neg (d # takeWhile is_digit r) (dropWhile is_digit r))
             else if d = 48 then Some (number_tail neg [d] r)
             else None)"

lemma skip_ws_length: "length (skip_ws s) \<le> length s"
  by (simp add: skip_ws_def length_dropWhile_le)

lemma skip_ws_Cons_length: "skip_ws s = d # r \<Longrightarrow> length r < length s"
  using skip_ws_length [of s] by simp

text \<open>
  \<open>scan_once\<close>: one JSON value at the start of the text, and the text behind it.
  \<open>array_items\<close> reads the elements of an array from its first element on,
  \<open>object_items\<close> the members of an object from its first key on. As in the decoder of
  CPython, the constants \<open>NaN\<close>, \<open>Infinity\<close> and \<open>-Infinity\<close> are accepted.

  The comparisons \<open>length r < length s\<close> behind a call of \<open>scan_once\<close> are always true
  (lemma \<open>scan_once_shorter\<close> below); they are what the termination proof rests on.
\<close>

function scan_once :: "ustr \<Rightarrow> (json \<times> ustr) option"
  and array_items :: "ustr \<Rightarrow> json list \<Rightarrow> (json \<times> ustr) option"
  and object_items :: "ustr \<Rightarrow> (ustr \<times> json) list \<Rightarrow> (json \<times> ustr) option"
where
  "scan_once [] = None"
| "scan_once (c # r) =
     (if c = 34 then
        (case scanstring r [] of None \<Rightarrow> None | Some (str, rest) \<Rightarrow> Some (JStr str, rest))
      else if c = 123 then
        (case skip_ws r of
           [] \<Rightarrow> None
         | d # r1 \<Rightarrow> if d = 125 then Some (JDict [], r1) else object_items (d # r1) [])
      else if c = 91 then
        (case skip_ws r of
           [] \<Rightarrow> None
         | d # r1 \<Rightarrow> if d = 93 then Some (JList [], r1) else array_items (d # r1) [])
      else if c = 110 \<and> py_startswith r (ustr ''ull'') then Some (JNull, drop 3 r)
      else if c = 116 \<and> py_startswith r (ustr ''rue'') then Some (JBool True, drop 3 r)
      else if c = 102 \<and> py_startswith r (ustr ''alse'') then Some (JBool False, drop 4 r)
      else if c = 78 \<and> py_startswith r (ustr ''aN'') then Some (JNaN, drop 2 r)
      else if c = 73 \<and> py_startswith r (ustr ''nfinity'') then Some (JInfinity False, drop 7 r)
      else if c = 45 \<and> py_startswith r (ustr ''Infinity'') then Some (JInfinity True, drop 8 r)
      else match_number (c # r))"
| "array_items s acc =
     (case scan_once s of
        None \<Rightarrow> None
      | Some (v, r) \<Rightarrow>
          if length r < length s then
            (case skip_ws r of
               [] \<Rightarrow> None
             | d # r1 \<Rightarrow>
                 if d = 93 then Some (JList (acc @ [v]), r1)
                 else if d = 44 then array_items (skip_ws r1) (acc @ [v])
                 else None)
          else None)"
| "object_items [] acc = None"
| "object_items (q # s) acc =
     (if q \<noteq> 34 then None
      else
        (case scanstring s [] of
           None \<Rightarrow> None
         | Some (key, r) \<Rightarrow>
             (case skip_ws r of
                [] \<Rightarrow> None
              | d # r1 \<Rightarrow>
                  if d \<noteq> 58 then None
                  else
                    (case scan_once (skip_ws r1) of
                       None \<Rightarrow> None
                     | Some (v, r2) \<Rightarrow>
                         if length r2 < length (skip_ws r1) then
                           (case skip_ws r2 of
                              [] \<Rightarrow> None
                            | d2 # r3 \<Rightarrow>
                                if d2 = 125 then Some (JDict (acc @ [(key, v)]), r3)
                                else if d2 = 44 then object_items (skip_ws r3) (acc @ [(key, v)])
                                else None)
                         else None))))"
  by pat_completeness auto
termination
proof (relation "measure (\<lambda>x. case x of
           Inl s \<Rightarrow> 2 * length s
         | Inr (Inl (s, acc)) \<Rightarrow> 2 * length s + 1
         | Inr (Inr (s, acc)) \<Rightarrow> 2 * length s + 1)", goal_cases)
  case 1
  show ?case by simp
next
  case (2 c r d r1)
  then show ?case
    by (auto dest: skip_ws_Cons_length skip_ws_Cons_length [OF sym])
next
  case (3 c r d r1)
  then show ?case
    by (auto dest: skip_ws_Cons_length skip_ws_Cons_length [OF sym])
next
  case (4 s acc)
  show ?case by simp
next
  case (5 s acc x v r d r1)
  then show ?case
    using skip_ws_length [of r1]
    by (auto dest: skip_ws_Cons_length skip_ws_Cons_length [OF sym])
next
  case (6 q s acc x key r d r1)
  then have "scanstring s [] = Some (key, r)" and "skip_ws r = d # r1"
    by simp_all
  then have "length r < length s" and "length r1 < length r"
    by (auto dest: scanstring_shorter skip_ws_Cons_length)
  then show ?case
    using skip_ws_length [of r1] by simp
next
  case (7 q s acc x key r d r1 y v r2 d2 r3)
  then have "scanstring s [] = Some (key, r)" and "skip_ws r = d # r1"
    and "length r2 < length (skip_ws r1)" and "skip_ws r2 = d2 # r3"
    by simp_all
  then have "length r < length s" and "length r1 < length r"
    and "length r2 < length (skip_ws r1)" and "length r3 < length r2"
    by (auto dest: scanstring_shorter skip_ws_Cons_length)
  then show ?case
    using skip_ws_length [of r1] skip_ws_length [of r3] by simp
qed

text \<open>
  The equations of the scanner are used for evaluation only; they are not rewrite rules
  of the simplifier by default.
\<close>

declare scan_once.simps [simp del] array_items.simps [simp del] object_items.simps [simp del]

lemmas scanner_simps = scan_once.simps array_items.simps object_items.simps

text \<open>
  Every successful scan consumes a part of the text, so the comparisons of lengths in
  \<open>array_items\<close> and \<open>object_items\<close> never fail.
\<close>

lemma number_tail_length: "length (snd (number_tail neg ds s)) \<le> length s"
proof -
  let ?f = "(case s of
               d # f # r \<Rightarrow>
                 if d = 46 \<and> is_digit f then (f # takeWhile is_digit r, dropWhile is_digit r)
                 else ([], s)
             | _ \<Rightarrow> ([], s))"
  obtain frac s1 where f: "?f = (frac, s1)"
    by (cases ?f) auto
  have s1: "length s1 \<le> length s"
    using f length_dropWhile_le [of is_digit]
    by (auto split: list.splits if_splits intro: le_SucI)
  let ?e = "(case s1 of
               e # r \<Rightarrow>
                 if e = 101 \<or> e = 69 then
                   (let (sg, r1) =
                          (case r of
                             g # r' \<Rightarrow>
                               if g = 45 then (- 1, r') else if g = 43 then (1, r') else (1, r)
                           | [] \<Rightarrow> (1, r));
                        eds = takeWhile is_digit r1
                    in if eds = [] then (None, s1)
                       else (Some (sg * int (digits_val eds)), dropWhile is_digit r1))
                 else (None, s1)
             | [] \<Rightarrow> (None, s1))"
  obtain ex s2 where e: "?e = (ex :: int option, s2)"
    by (cases ?e) auto
  have "length s2 \<le> length s1"
    using e length_dropWhile_le [of is_digit]
    by (auto simp: Let_def split: list.splits if_splits prod.splits intro: le_SucI)
  with s1 have "length s2 \<le> length s" by simp
  moreover have "snd (number_tail neg ds s) = s2"
    unfolding number_tail_def f using e by (simp add: Let_def)
  ultimately show ?thesis by simp
qed

lemma number_tail_rest:
  "number_tail neg ds t = (v, r) \<Longrightarrow> length r \<le> length t"
  "number_tail neg ds (dropWhile is_digit t) = (v, r) \<Longrightarrow> length r \<le> length t"
proof -
  show "number_tail neg ds t = (v, r) \<Longrightarrow> length r \<le> length t"
    using number_tail_length [of neg ds t] by simp
  show "number_tail neg ds (dropWhile is_digit t) = (v, r) \<Longrightarrow> length r \<le> length t"
    using number_tail_length [of neg ds "dropWhile is_digit t"] length_dropWhile_le [of is_digit t]
    by simp
qed

lemma match_number_shorter:
  assumes "match_number s = Some (v, r)"
  shows "length r < length s"
proof (cases s)
  case Nil
  with assms show ?thesis by (simp add: match_number_def)
next
  case (Cons c cs)
  show ?thesis
  proof (cases "c = 45")
    case True
    with assms Cons show ?thesis
      by (cases cs)
         (auto simp: match_number_def split: if_splits dest!: number_tail_rest)
  next
    case False
    with assms Cons show ?thesis
      by (auto simp: match_number_def split: if_splits dest!: number_tail_rest)
  qed
qed

lemma scan_once_shorter:
  "scan_once s = Some (v, r) \<Longrightarrow> length r < length s"
  "array_items s acc = Some (v, r) \<Longrightarrow> length r < length s"
  "object_items s acc' = Some (v, r) \<Longrightarrow> length r < length s"
proof (induction s and s acc and s acc' arbitrary: v r and v r and v r
       rule: scan_once_array_items_object_items.induct)
  case 1
  then show ?case by (simp add: scan_once.simps)
next
  case (2 c r')
  show ?case
  proof (cases "c = 34")
    case True
    with 2(3) show ?thesis
      by (auto simp: scan_once.simps split: option.splits dest: scanstring_shorter)
  next
    case n34: False
    show ?thesis
    proof (cases "c = 123")
      case True
      with n34 2(3) obtain d r1 where sk: "skip_ws r' = d # r1"
        by (cases "skip_ws r'") (auto simp: scan_once.simps)
      from skip_ws_Cons_length [OF sk] have l: "length r1 < length r'" .
      show ?thesis
      proof (cases "d = 125")
        case t: True
        with True n34 2(3) sk l show ?thesis
          by (auto simp: scan_once.simps)
      next
        case f: False
        with True n34 2(3) sk have "object_items (d # r1) [] = Some (v, r)"
          by (auto simp: scan_once.simps)
        from 2(1) [OF n34 True sk f this] l show ?thesis by simp
      qed
    next
      case n123: False
      show ?thesis
      proof (cases "c = 91")
        case True
        with n34 n123 2(3) obtain d r1 where sk: "skip_ws r' = d # r1"
          by (cases "skip_ws r'") (auto simp: scan_once.simps)
        from skip_ws_Cons_length [OF sk] have l: "length r1 < length r'" .
        show ?thesis
        proof (cases "d = 93")
          case t: True
          with True n34 n123 2(3) sk l show ?thesis
            by (auto simp: scan_once.simps)
        next
          case f: False
          with True n34 n123 2(3) sk have "array_items (d # r1) [] = Some (v, r)"
            by (auto simp: scan_once.simps)
          from 2(2) [OF n34 n123 True sk f this] l show ?thesis by simp
        qed
      next
        case False
        with n34 n123 2(3) show ?thesis
          by (auto simp: scan_once.simps split: if_splits dest: match_number_shorter)
      qed
    qed
  qed
next
  case (3 s acc)
  from 3(3) obtain v1 r1 where sc: "scan_once s = Some (v1, r1)" and lt: "length r1 < length s"
    by (auto simp: array_items.simps [of s] split: option.splits if_splits)
  from 3(3) sc lt obtain d r2 where sk: "skip_ws r1 = d # r2"
    by (cases "skip_ws r1") (auto simp: array_items.simps [of s])
  from skip_ws_Cons_length [OF sk] have l2: "length r2 < length r1" .
  show ?case
  proof (cases "d = 93")
    case True
    with 3(3) sc lt sk l2 show ?thesis
      by (auto simp: array_items.simps [of s])
  next
    case False
    with 3(3) sc lt sk have d: "d = 44" and rec: "array_items (skip_ws r2) (acc @ [v1]) = Some (v, r)"
      by (auto simp: array_items.simps [of s] split: if_splits)
    from 3(2) [OF sc refl lt sk False d rec] skip_ws_length [of r2] l2 lt show ?thesis
      by simp
  qed
next
  case 4
  then show ?case by (simp add: object_items.simps)
next
  case (5 q s acc)
  from 5(3) have q: "q = 34"
    by (auto simp: object_items.simps split: if_splits)
  with 5(3) obtain key r1 where ss: "scanstring s [] = Some (key, r1)"
    by (auto simp: object_items.simps split: option.splits)
  from scanstring_shorter [OF ss] have l1: "length r1 < length s" .
  from 5(3) q ss obtain d r2 where sk: "skip_ws r1 = d # r2"
    by (cases "skip_ws r1") (auto simp: object_items.simps)
  from skip_ws_Cons_length [OF sk] have l2: "length r2 < length r1" .
  from 5(3) q ss sk have d: "d = 58"
    by (auto simp: object_items.simps split: if_splits)
  from 5(3) q ss sk d obtain v1 r3 where sc: "scan_once (skip_ws r2) = Some (v1, r3)"
    and l3: "length r3 < length (skip_ws r2)"
    by (auto simp: object_items.simps split: option.splits if_splits)
  from 5(3) q ss sk d sc l3 obtain d2 r4 where sk2: "skip_ws r3 = d2 # r4"
    by (cases "skip_ws r3") (auto simp: object_items.simps)
  from skip_ws_Cons_length [OF sk2] have l4: "length r4 < length r3" .
  have bound: "length r4 < length s"
    using l1 l2 l3 l4 skip_ws_length [of r2] by simp
  show ?case
  proof (cases "d2 = 125")
    case True
    with 5(3) q ss sk d sc l3 sk2 bound show ?thesis
      by (auto simp: object_items.simps)
  next
    case False
    with 5(3) q ss sk d sc l3 sk2 have d2: "d2 = 44"
      and rec: "object_items (skip_ws r4) (acc @ [(key, v1)]) = Some (v, r)"
      by (auto simp: object_items.simps split: if_splits)
    have "\<not> q \<noteq> 34" using q by simp
    from 5(2) [OF this ss refl sk _ sc refl l3 sk2 False d2 rec] d
      skip_ws_length [of r4] bound show ?thesis
      by simp
  qed
qed

text \<open>
  \<^verbatim>\<open>
  def loads(s):
      if s.startswith(BOM): raise JSONDecodeError(...)    # BOM is U+FEFF
      return _default_decoder.decode(s)
  def decode(self, s, _w=WHITESPACE.match):
      obj, end = self.raw_decode(s, idx=_w(s, 0).end())
      end = _w(s, end).end()
      if end != len(s): raise JSONDecodeError("Extra data", s, end)
      return obj
  \<close>
  \<open>json.loads\<close> of the standard library, on a \<open>str\<close>. Not modelled: the recursion limit
  of the interpreter and its limit on the number of digits of an integer literal.
\<close>

definition json_loads :: "ustr \<Rightarrow> exn + json" where
  "json_loads s =
     (if py_startswith s [65279] then Inl JSONDecodeError
      else
        (case scan_once (skip_ws s) of
           None \<Rightarrow> Inl JSONDecodeError
         | Some (obj, rest) \<Rightarrow> if skip_ws rest = [] then Inr obj else Inl JSONDecodeError))"

section \<open>Operations of Python on decoded JSON values\<close>

text \<open>
  The truth value of an object. The literal of a float stands for the double zero when
  its decimal value is at most \<open>2 ^ -1075\<close>, half of the least positive double.
\<close>

definition float_nonzero :: "nat \<Rightarrow> int \<Rightarrow> bool" where
  "float_nonzero m e \<longleftrightarrow> m \<noteq> 0 \<and> (0 \<le> e \<or> 10 ^ nat (- e) < m * 2 ^ 1075)"

fun truthy :: "json \<Rightarrow> bool" where
  "truthy JNull = False"
| "truthy (JBool b) = b"
| "truthy (JInt i) = (i \<noteq> 0)"
| "truthy (JFloat neg m e) = float_nonzero m e"
| "truthy JNaN = True"
| "truthy (JInfinity neg) = True"
| "truthy (JStr s) = (s \<noteq> [])"
| "truthy (JList xs) = (xs \<noteq> [])"
| "truthy (JDict d) = (d \<noteq> [])"

text \<open>The value of a key in a decoded object: the last member of that name.\<close>

definition dict_get :: "(ustr \<times> json) list \<Rightarrow> ustr \<Rightarrow> json option" where
  "dict_get d k = map_of (rev d) k"

text \<open>
  \<open>x.get(k, default)\<close>: only a \<open>dict\<close> has the method; on any other decoded value the
  attribute lookup raises \<open>AttributeError\<close>.
\<close>

fun py_get :: "json \<Rightarrow> ustr \<Rightarrow> json \<Rightarrow> exn + json" where
  "py_get (JDict d) k dflt = Inr (case dict_get d k of None \<Rightarrow> dflt | Some v \<Rightarrow> v)"
| "py_get _ k dflt = Inl AttributeError"

text \<open>
  \<open>x[0]\<close>: the first element of a list, the first character of a string, \<open>KeyError\<close> on
  a decoded object (its keys are strings), \<open>TypeError\<close> on a number, a boolean or \<open>None\<close>.
\<close>

fun py_index0 :: "json \<Rightarrow> exn + json" where
  "py_index0 (JList xs) = py_item xs 0"
| "py_index0 (JStr s) = (case s of [] \<Rightarrow> Inl IndexError | c # _ \<Rightarrow> Inr (JStr [c]))"
| "py_index0 (JDict d) = Inl KeyError"
| "py_index0 _ = Inl TypeError"

text \<open>
  \<open>normalize_stream_text(content_piece)\<close> on a decoded value: \<open>text.encode\<close> exists on a
  \<open>str\<close> only.
\<close>

fun normalize_value :: "json \<Rightarrow> exn + ustr" where
  "normalize_value (JStr s) = normalize_stream_text s"
| "normalize_value _ = Inl AttributeError"

section \<open>The streaming branch of main (app.py, lines 200-257)\<close>

text \<open>
  The variables of the loop: \<open>text_buffer\<close>, \<open>raw_lines\<close>, and what the placeholder
  \<open>log_placeholder\<close> shows on the page (\<open>None\<close> while it is still empty).
\<close>

record stream_state =
  text_buffer :: "ustr list"
  raw_lines :: "ustr list"
  log_placeholder :: "ustr option"

definition init_state :: stream_state where
  "init_state = \<lparr>text_buffer = [], raw_lines = [], log_placeholder = None\<rparr>"

text \<open>
  How one pass through the loop body ends: with \<open>continue\<close> or by reaching the end of
  the body, with \<open>break\<close>, or with an exception. The variables of \<open>main\<close> are lost with its
  frame when an exception leaves it; what stays is the page, here the text in the
  placeholder of the log.
\<close>

datatype flow =
    Continue stream_state
  | Break stream_state
  | Raise exn "ustr option"

text \<open>
  Lines 209-210:
  \<^verbatim>\<open>
  if raw_line.startswith("data:"):
      raw_line = raw_line.split("data:", 1)[1].strip()
  \<close>
\<close>

definition strip_data_prefix :: "ustr \<Rightarrow> exn + ustr" where
  "strip_data_prefix raw_line =
     (if py_startswith raw_line (ustr ''data:'')
      then (case py_item (py_split1 (ustr ''data:'') raw_line) 1 of
              Inl e \<Rightarrow> Inl e
            | Inr rest \<Rightarrow> Inr (py_strip rest))
      else Inr raw_line)"

text \<open>
  Lines 216-219: \<^verbatim>\<open>"\n".join(raw_lines[-40:]) or "(K)"\<close>, the text put into the
  placeholder, where \<open>K\<close> stands for the one character U+7A7A of the source.
\<close>

definition log_text :: "ustr list \<Rightarrow> ustr" where
  "log_text ls =
     (let t = py_join [10] (py_last_n 40 ls) in if t \<noteq> [] then t else [40, 31354, 41])"

text \<open>
  Lines 226-233, on the decoded chunk: \<open>None\<close> when nothing is appended to
  \<open>text_buffer\<close>, otherwise the normalised piece.
  \<^verbatim>\<open>
  choices = chunk.get("choices", [])
  if not choices:
      continue
  delta = choices[0].get("delta") or {}
  content_piece = delta.get("content")
  if content_piece:
      text_buffer.append(normalize_stream_text(content_piece))
  \<close>
\<close>

definition chunk_piece :: "json \<Rightarrow> exn + ustr option" where
  "chunk_piece chunk =
     (case py_get chunk (ustr ''choices'') (JList []) of
        Inl e \<Rightarrow> Inl e
      | Inr choices \<Rightarrow>
          if \<not> truthy choices then Inr None
          else
            (case py_index0 choices of
               Inl e \<Rightarrow> Inl e
             | Inr choice \<Rightarrow>
                 (case py_get choice (ustr ''delta'') JNull of
                    Inl e \<Rightarrow> Inl e
                  | Inr d \<Rightarrow>
                      (let delta = (if truthy d then d else JDict []) in
                       case py_get delta (ustr ''content'') JNull of
                         Inl e \<Rightarrow> Inl e
                       | Inr content_piece \<Rightarrow>
                           if truthy content_piece
                           then (case normalize_value content_piece of
                                   Inl e \<Rightarrow> Inl e
                                 | Inr t \<Rightarrow> Inr (Some t))
                           else Inr None))))"

text \<open>
  Lines 215-219: the frame is appended to \<open>raw_lines\<close> and the placeholder is filled anew.
  \<^verbatim>\<open>
  raw_lines.append(raw_line)
  log_placeholder.code("\n".join(raw_lines[-40:]) or "(K)", language="json")
  \<close>
\<close>

definition log_line :: "stream_state \<Rightarrow> ustr \<Rightarrow> stream_state" where
  "log_line s frame =
     (let ls = raw_lines s @ [frame]
      in s\<lparr>raw_lines := ls, log_placeholder := Some (log_text ls)\<rparr>)"

text \<open>
  The body of the \<open>for\<close> loop, lines 207-233, on one line of the response.
  \<^verbatim>\<open>
  if not raw_line:
      continue
  if raw_line.startswith("data:"):
      raw_line = raw_line.split("data:", 1)[1].strip()
  if raw_line == "[DONE]":
      break
  raw_lines.append(raw_line)
  log_placeholder.code(...)
  try:
      chunk = json.loads(raw_line)
  except json.JSONDecodeError:
      continue
  ...
  \<close>
\<close>

definition loop_body :: "stream_state \<Rightarrow> ustr \<Rightarrow> flow" where
  "loop_body s raw_line =
     (if raw_line = [] then Continue s
      else
        (case strip_data_prefix raw_line of
           Inl e \<Rightarrow> Raise e (log_placeholder s)
         | Inr frame \<Rightarrow>
             if frame = ustr ''[DONE]'' then Break s
             else
               (let s1 = log_line s frame
                in case json_loads frame of
                     Inl e \<Rightarrow>
                       if e = JSONDecodeError then Continue s1 else Raise e (log_placeholder s1)
                   | Inr chunk \<Rightarrow>
                       (case chunk_piece chunk of
                          Inl e \<Rightarrow> Raise e (log_placeholder s1)
                        | Inr None \<Rightarrow> Continue s1
                        | Inr (Some t) \<Rightarrow>
                            Continue (s1\<lparr>text_buffer := text_buffer s1 @ [t]\<rparr>)))))"

text \<open>
  What \<open>response.iter_lines(decode_unicode=True)\<close> delivers at one read: a line, or an
  exception of the transport (the connection drops or times out). The end of the list
  is the end of the stream.
\<close>

datatype read = Line ustr | Drop

text \<open>
  The \<open>for\<close> loop. It returns the variables and the reads that were not made, or the
  exception that left it together with the text in the placeholder.
\<close>

fun stream_loop :: "stream_state \<Rightarrow> read list \<Rightarrow> (exn \<times> ustr option) + (stream_state \<times> read list)"
  where
  "stream_loop s [] = Inr (s, [])"
| "stream_loop s (Drop # rest) = Inl (RequestException, log_placeholder s)"
| "stream_loop s (Line l # rest) =
     (case loop_body s l of
        Continue s' \<Rightarrow> stream_loop s' rest
      | Break s' \<Rightarrow> Inr (s', rest)
      | Raise e shown \<Rightarrow> Inl (e, shown))"

text \<open>
  The three ways the result is presented: \<open>st.video\<close> with a download link
  (\<open>RecognizedMedia\<close>), \<open>st.warning\<close> with the link (\<open>UnrecognizedLink\<close>), and no link at
  all (\<open>NoLink\<close>: \<open>st.info\<close> in the streaming branch, nothing in the other one).
\<close>

datatype classification = RecognizedMedia | UnrecognizedLink | NoLink

definition video_suffixes :: "ustr list" where
  "video_suffixes = [ustr ''.mp4'', ustr ''.mov'', ustr ''.webm'', ustr ''.mkv'']"

text \<open>The truth value of an \<open>Optional[str]\<close>.\<close>

definition str_truthy :: "ustr option \<Rightarrow> bool" where
  "str_truthy x = (case x of None \<Rightarrow> False | Some s \<Rightarrow> s \<noteq> [])"

text \<open>
  Lines 236-257, from \<open>final_text\<close>: the link that is presented and how.
  \<^verbatim>\<open>
  if final_text:
      video_url = None
      candidate_url = extract_first_url(final_text)
      if candidate_url and candidate_url.lower().endswith((".mp4", ".mov", ".webm", ".mkv")):
          video_url = candidate_url
      if video_url: st.video(video_url) ...
      elif candidate_url: st.warning(...)
      else: st.info(...)
  else:
      st.info(...)
  \<close>
\<close>

definition resolve_text :: "ustr \<Rightarrow> ustr option \<times> classification" where
  "resolve_text final_text =
     (if final_text \<noteq> [] then
        (let candidate_url = extract_first_url final_text;
             video_url =
               (case candidate_url of
                  None \<Rightarrow> None
                | Some u \<Rightarrow>
                    if u \<noteq> [] \<and> py_endswith_any (py_lower u) video_suffixes
                    then candidate_url else None)
         in if str_truthy video_url then (video_url, RecognizedMedia)
            else if str_truthy candidate_url then (candidate_url, UnrecognizedLink)
            else (None, NoLink))
      else (None, NoLink))"

text \<open>
  What a streaming session that ends without an exception leaves: the text, the lines of
  the log and the text in its placeholder, the link and its presentation, and the reads
  that were never made.
\<close>

record session =
  final_text :: ustr
  log_lines :: "ustr list"
  log_shown :: "ustr option"
  candidate :: "ustr option"
  class_of :: classification
  unread :: "read list"

definition stream_session :: "read list \<Rightarrow> (exn \<times> ustr option) + session" where
  "stream_session src =
     (case stream_loop init_state src of
        Inl err \<Rightarrow> Inl err
      | Inr (s, rest) \<Rightarrow>
          (let text = py_strip (concat (text_buffer s));
               (url, cls) = resolve_text text
           in Inr \<lparr>final_text = text, log_lines = raw_lines s, log_shown = log_placeholder s,
                    candidate = url, class_of = cls, unread = rest\<rparr>))"

section \<open>The non-streaming branch of main (app.py, lines 269-292)\<close>

text \<open>
  Lines 269-280, on the decoded response; \<open>JNull\<close> is Python's \<open>None\<close>.
  \<^verbatim>\<open>
  video_url = None
  if isinstance(data, dict):
      choices = data.get("choices", [])
      if choices:
          message = choices[0].get("message", {})
          contents = message.get("content", [])
          if contents:
              first_item = contents[0]
              if isinstance(first_item, dict):
                  video_url = first_item.get("url") or first_item.get("text")
              elif isinstance(first_item, str):
                  video_url = first_item
  \<close>
\<close>

fun first_item_url :: "json \<Rightarrow> exn + json" where
  "first_item_url (JDict d) =
     (case py_get (JDict d) (ustr ''url'') JNull of
        Inl e \<Rightarrow> Inl e
      | Inr u \<Rightarrow> if truthy u then Inr u else py_get (JDict d) (ustr ''text'') JNull)"
| "first_item_url (JStr s) = Inr (JStr s)"
| "first_item_url _ = Inr JNull"

fun response_video_url :: "json \<Rightarrow> exn + json" where
  "response_video_url (JDict data) =
     (case py_get (JDict data) (ustr ''choices'') (JList []) of
        Inl e \<Rightarrow> Inl e
      | Inr choices \<Rightarrow>
          if \<not> truthy choices then Inr JNull
          else
            (case py_index0 choices of
               Inl e \<Rightarrow> Inl e
             | Inr choice \<Rightarrow>
                 (case py_get choice (ustr ''message'') (JDict []) of
                    Inl e \<Rightarrow> Inl e
                  | Inr message \<Rightarrow>
                      (case py_get message (ustr ''content'') (JList []) of
                         Inl e \<Rightarrow> Inl e
                       | Inr contents \<Rightarrow>
                           if \<not> truthy contents then Inr JNull
                           else
                             (case py_index0 contents of
                                Inl e \<Rightarrow> Inl e
                              | Inr first_item \<Rightarrow> first_item_url first_item)))))"
| "response_video_url _ = Inr JNull"

text \<open>
  Lines 282-292, on \<open>video_url\<close>; \<open>video_url.lower()\<close> exists on a \<open>str\<close> only.
  \<^verbatim>\<open>
  if video_url and video_url.lower().endswith((".mp4", ".mov", ".webm", ".mkv")):
      st.video(video_url) ...
  elif video_url:
      st.warning(...)
  \<close>
\<close>

definition present_video_url :: "json \<Rightarrow> exn + (ustr option \<times> classification)" where
  "present_video_url video_url =
     (if truthy video_url then
        (case video_url of
           JStr u \<Rightarrow>
             if py_endswith_any (py_lower u) video_suffixes then Inr (Some u, RecognizedMedia)
             else Inr (Some u, UnrecognizedLink)
         | _ \<Rightarrow> Inl AttributeError)
      else Inr (None, NoLink))"

definition resolve_response :: "json \<Rightarrow> exn + (ustr option \<times> classification)" where
  "resolve_response data =
     (case response_video_url data of
        Inl e \<Rightarrow> Inl e
      | Inr video_url \<Rightarrow> present_video_url video_url)"

section \<open>Notions of the specification\<close>

text \<open>
  The text of a line once its \<open>data:\<close> prefix, if it has one, and the whitespace around
  the remainder are taken off; a line without the prefix is taken as it is.
\<close>

definition frame_text :: "ustr \<Rightarrow> ustr" where
  "frame_text l = (if py_startswith l (ustr ''data:'') then py_strip (drop 5 l) else l)"

text \<open>A line whose text is the sentinel.\<close>

definition is_sentinel :: "ustr \<Rightarrow> bool" where
  "is_sentinel l \<longleftrightarrow> frame_text l = ustr ''[DONE]''"

text \<open>
  The path \<open>choices[0].delta.content\<close> of a decoded chunk: the member of an object, the
  first element of a list, and a string that is not empty. \<open>delta_content\<close> is the
  fragment of a chunk when the chunk has one.
\<close>

fun member :: "ustr \<Rightarrow> json \<Rightarrow> json option" where
  "member k (JDict d) = dict_get d k"
| "member k _ = None"

fun first_of :: "json \<Rightarrow> json option" where
  "first_of (JList (x # xs)) = Some x"
| "first_of _ = None"

fun nonempty_text :: "json \<Rightarrow> ustr option" where
  "nonempty_text (JStr t) = (if t \<noteq> [] then Some t else None)"
| "nonempty_text _ = None"

definition delta_content :: "json \<Rightarrow> ustr option" where
  "delta_content chunk =
     do {
       choices \<leftarrow> member (ustr ''choices'') chunk;
       choice \<leftarrow> first_of choices;
       delta \<leftarrow> member (ustr ''delta'') choice;
       content \<leftarrow> member (ustr ''content'') delta;
       nonempty_text content
     }"

text \<open>
  The normalisation as the specification words it: the fragment read as single bytes and
  decoded again as UTF-8, or the fragment itself when that fails.
\<close>

definition renormalized :: "ustr \<Rightarrow> ustr" where
  "renormalized f =
     (if list_all (\<lambda>c. c < 256) f
      then (case utf8_chars f of Some t \<Rightarrow> t | None \<Rightarrow> f)
      else f)"

text \<open>The fragment that a line of the response carries, if any.\<close>

definition fragment_of :: "ustr \<Rightarrow> ustr option" where
  "fragment_of l =
     (if l = [] then None
      else (case json_loads (frame_text l) of
              Inl e \<Rightarrow> None
            | Inr chunk \<Rightarrow> delta_content chunk))"

text \<open>
  The lines that a session reads before it ends: those in front of the first sentinel
  line, of the first failing read, or of the end of the stream.
\<close>

fun arrived :: "read list \<Rightarrow> ustr list" where
  "arrived [] = []"
| "arrived (Drop # rest) = []"
| "arrived (Line l # rest) = (if is_sentinel l then [] else l # arrived rest)"

text \<open>The reads behind the first sentinel line; none when there is no such line.\<close>

fun after_sentinel :: "read list \<Rightarrow> read list" where
  "after_sentinel [] = []"
| "after_sentinel (Drop # rest) = after_sentinel rest"
| "after_sentinel (Line l # rest) = (if is_sentinel l then rest else after_sentinel rest)"

text \<open>
  The text in the placeholder of the log once the frames \<open>fs\<close> have been logged, and the
  frames of a list of lines: the text of every line that is not empty.
\<close>

definition shown_log :: "ustr list \<Rightarrow> ustr option" where
  "shown_log fs = (if fs = [] then None else Some (log_text fs))"

definition frames :: "ustr list \<Rightarrow> ustr list" where
  "frames ls = map frame_text (filter (\<lambda>l. l \<noteq> []) ls)"

text \<open>
  The sentinel test in the words of claim C4: the \<open>data:\<close> prefix, if there is one, is
  taken off, the whitespace around what is left is trimmed in either case, and the result
  is compared with \<open>[DONE]\<close>.
\<close>

definition claimed_sentinel :: "ustr \<Rightarrow> bool" where
  "claimed_sentinel l \<longleftrightarrow>
     py_strip (if py_startswith l (ustr ''data:'') then drop 5 l else l) = ustr ''[DONE]''"

text \<open>
  A link begins at the head of a text: the text starts with \<open>http://\<close> or \<open>https://\<close>,
  and a code point that is not whitespace follows. \<open>nonspace_run\<close> is the run of code
  points up to the first whitespace or the end of the text.
\<close>

definition url_at :: "ustr \<Rightarrow> bool" where
  "url_at t \<longleftrightarrow>
     (py_startswith t (ustr ''http://'') \<and> 7 < length t \<and> \<not> py_isspace (t ! 7)) \<or>
     (py_startswith t (ustr ''https://'') \<and> 8 < length t \<and> \<not> py_isspace (t ! 8))"

definition nonspace_run :: "ustr \<Rightarrow> ustr" where
  "nonspace_run t = takeWhile (\<lambda>c. \<not> py_isspace c) t"

text \<open>
  The head of a run in the words of claim C10: the text starts with \<open>http://\<close> or
  \<open>https://\<close>, whatever follows.
\<close>

definition scheme_at :: "ustr \<Rightarrow> bool" where
  "scheme_at t \<longleftrightarrow> py_startswith t (ustr ''http://'') \<or> py_startswith t (ustr ''https://'')"

text \<open>
  A text ends in an extension up to the case of its letters, and the rule of the
  specification for the classification of a candidate: a recognised media link when the
  candidate ends in one of the four extensions, an unrecognised link otherwise, no link
  when there is no candidate.
\<close>

definition ci_suffix :: "ustr \<Rightarrow> ustr \<Rightarrow> bool" where
  "ci_suffix u ext \<longleftrightarrow> (\<exists>tl. suffix tl u \<and> py_lower tl = ext)"

definition media_link :: "ustr \<Rightarrow> bool" where
  "media_link u \<longleftrightarrow>
     ci_suffix u (ustr ''.mp4'') \<or> ci_suffix u (ustr ''.mov'') \<or>
     ci_suffix u (ustr ''.webm'') \<or> ci_suffix u (ustr ''.mkv'')"

definition classify :: "ustr option \<Rightarrow> classification" where
  "classify c =
     (case c of
        None \<Rightarrow> NoLink
      | Some u \<Rightarrow> if media_link u then RecognizedMedia else UnrecognizedLink)"

text \<open>
  The field of a response that is not streamed, at \<open>choices[0].message.content[0]\<close>: the
  element itself when it is a string, and for an object its \<open>url\<close>, or its \<open>text\<close> when
  the \<open>url\<close> is absent or empty. Python also indexes a string, whose first element is
  its first character. A missing member leaves no field (\<open>JNull\<close>).
\<close>

fun first_elem :: "json \<Rightarrow> json option" where
  "first_elem (JList (x # xs)) = Some x"
| "first_elem (JStr (c # cs)) = Some (JStr [c])"
| "first_elem _ = None"

definition or_null :: "json option \<Rightarrow> json" where
  "or_null x = (case x of None \<Rightarrow> JNull | Some v \<Rightarrow> v)"

fun field_of :: "json \<Rightarrow> json" where
  "field_of (JStr s) = JStr s"
| "field_of (JDict d) =
     (if truthy (or_null (member (ustr ''url'') (JDict d)))
      then or_null (member (ustr ''url'') (JDict d))
      else or_null (member (ustr ''text'') (JDict d)))"
| "field_of _ = JNull"

definition extracted_field :: "json \<Rightarrow> json" where
  "extracted_field data =
     or_null (do {
       choices \<leftarrow> member (ustr ''choices'') data;
       choice \<leftarrow> first_of choices;
       message \<leftarrow> member (ustr ''message'') choice;
       contents \<leftarrow> member (ustr ''content'') message;
       item \<leftarrow> first_elem contents;
       Some (field_of item)
     })"

text \<open>
  The field taken whole as the candidate: no link when it is not a string or is empty,
  otherwise the string itself, classified by its ending.
\<close>

definition whole_field_link :: "json \<Rightarrow> ustr option \<times> classification" where
  "whole_field_link v =
     (case v of
        JStr u \<Rightarrow> if u = [] then (None, NoLink) else (Some u, classify (Some u))
      | _ \<Rightarrow> (None, NoLink))"

section \<open>Facts about the modelled library functions\<close>

lemma scan_once_space:
  assumes "py_isspace c"
  shows "scan_once (c # r) = None"
proof -
  from assms have "c \<noteq> 34 \<and> c \<noteq> 123 \<and> c \<noteq> 91 \<and> c \<noteq> 110 \<and> c \<noteq> 116 \<and> c \<noteq> 102 \<and> c \<noteq> 78 \<and>
      c \<noteq> 73 \<and> c \<noteq> 45 \<and> c \<noteq> 48 \<and> \<not> (49 \<le> c \<and> c \<le> 57)"
    unfolding py_isspace_def by presburger
  then show ?thesis
    by (simp add: scan_once.simps match_number_def)
qed

lemma startswith_data_nonempty: "py_startswith l (ustr ''data:'') \<Longrightarrow> l \<noteq> []"
  by (auto simp: py_startswith_def ustr_def)

lemma strip_data_prefix_eq:
  "strip_data_prefix l =
     Inr (if py_startswith l (ustr ''data:'') then py_strip (drop 5 l) else l)"
proof (cases "py_startswith l (ustr ''data:'')")
  case True
  then obtain c cs where l: "l = c # cs"
    using startswith_data_nonempty by (cases l) auto
  have "length (ustr ''data:'') = 5"
    by (simp add: ustr_def)
  with True show ?thesis
    unfolding l by (simp add: strip_data_prefix_def py_item_def)
next
  case False
  then show ?thesis
    by (simp add: strip_data_prefix_def)
qed

lemma json_loads_error: "json_loads f = Inl e \<Longrightarrow> e = JSONDecodeError"
  by (auto simp: json_loads_def split: if_splits option.splits)

lemma json_loads_blank:
  assumes "list_all py_isspace l"
  shows "json_loads l = Inl JSONDecodeError"
proof (cases "skip_ws l")
  case Nil
  then show ?thesis by (simp add: json_loads_def scan_once.simps)
next
  case (Cons c r)
  then have "c \<in> set l"
    using set_dropWhileD [of c json_ws l] by (simp add: skip_ws_def)
  with assms have "py_isspace c"
    by (simp add: list_all_iff)
  with Cons show ?thesis
    by (simp add: json_loads_def scan_once_space)
qed

section \<open>Properties of normalize_stream_text\<close>

lemma normalize_latin1:
  assumes "list_all (\<lambda>c. c < 256) text"
  shows "normalize_stream_text text =
           Inr (case utf8_chars text of Some t \<Rightarrow> t | None \<Rightarrow> text)"
  using assms
  by (simp add: normalize_stream_text_def encode_latin1_def decode_utf8_def
           split: option.splits)

lemma normalize_beyond_latin1:
  assumes "\<not> list_all (\<lambda>c. c < 256) text"
  shows "normalize_stream_text text = Inl UnicodeEncodeError"
  using assms
  by (simp add: normalize_stream_text_def encode_latin1_def)

text \<open>
  Claim C2 says that the normalisation never raises and gives the fragment back
  unchanged whenever the re-interpretation fails. On the one-character fragment U+4E2D
  (a CJK ideograph, as the escape \<open>\u4e2d\<close> of a JSON string decodes to) the encoding
  step fails with \<open>UnicodeEncodeError\<close>, which the handler does not name: the function
  raises and the fragment is not returned.
\<close>

theorem normalize_stream_text_raises:
  "normalize_stream_text [20013] = Inl UnicodeEncodeError"
  by (simp add: normalize_stream_text_def encode_latin1_def)

section \<open>The chunk and its fragment\<close>

lemma py_get_Inr:
  assumes "py_get x k dflt = Inr v"
  shows "(\<exists>d. x = JDict d) \<and> v = (case member k x of None \<Rightarrow> dflt | Some w \<Rightarrow> w)"
  using assms by (cases x) auto

lemma falsy_member: "\<not> truthy v \<Longrightarrow> member k v = None"
  by (cases v) (auto simp: dict_get_def)

lemma falsy_first_of: "\<not> truthy v \<Longrightarrow> first_of v = None"
  by (cases v) auto

lemma falsy_nonempty_text: "\<not> truthy v \<Longrightarrow> nonempty_text v = None"
  by (cases v) auto

lemma index0_dict:
  assumes "py_index0 v = Inr c" and "c = JDict d"
  shows "first_of v = Some c"
proof (cases v)
  case (JList xs)
  with assms show ?thesis
    by (cases xs) (auto simp: py_item_def)
next
  case (JStr t)
  with assms show ?thesis
    by (cases t) auto
qed (use assms in auto)

lemma normalize_value_Inr:
  assumes "normalize_value v = Inr t" and "truthy v"
  shows "\<exists>f. nonempty_text v = Some f \<and> t = renormalized f"
proof (cases v)
  case (JStr f)
  with assms have "f \<noteq> []" and n: "normalize_stream_text f = Inr t"
    by auto
  from n have "t = renormalized f"
    by (cases "list_all (\<lambda>c. c < 256) f")
       (auto simp: normalize_latin1 normalize_beyond_latin1 renormalized_def)
  with JStr \<open>f \<noteq> []\<close> show ?thesis by simp
qed (use assms in auto)

lemma chunk_piece_Inr:
  assumes "chunk_piece chunk = Inr p"
  shows "p = map_option renormalized (delta_content chunk)"
proof -
  let ?K = "ustr ''choices''" and ?D = "ustr ''delta''" and ?C = "ustr ''content''"
  from assms obtain choices where g1: "py_get chunk ?K (JList []) = Inr choices"
    by (auto simp: chunk_piece_def split: sum.splits)
  from py_get_Inr [OF g1]
  have choices: "choices = (case member ?K chunk of None \<Rightarrow> JList [] | Some w \<Rightarrow> w)"
    by simp
  show ?thesis
  proof (cases "truthy choices")
    case False
    with assms g1 have "p = None"
      by (simp add: chunk_piece_def)
    moreover from False choices have "delta_content chunk = None"
      by (auto simp: delta_content_def falsy_first_of split: option.splits)
    ultimately show ?thesis by simp
  next
    case True
    with choices have mem: "member ?K chunk = Some choices"
      by (auto split: option.splits)
    from assms g1 True obtain choice where i: "py_index0 choices = Inr choice"
      by (auto simp: chunk_piece_def split: sum.splits)
    from assms g1 True i obtain d where g2: "py_get choice ?D JNull = Inr d"
      by (auto simp: chunk_piece_def split: sum.splits)
    from py_get_Inr [OF g2] obtain cd where cd: "choice = JDict cd"
      and d: "d = (case member ?D choice of None \<Rightarrow> JNull | Some w \<Rightarrow> w)"
      by auto
    from index0_dict [OF i cd] have first: "first_of choices = Some choice" .
    define delta where "delta = (if truthy d then d else JDict [])"
    from assms g1 True i g2 obtain cp where g3: "py_get delta ?C JNull = Inr cp"
      by (auto simp: chunk_piece_def Let_def delta_def split: sum.splits)
    from py_get_Inr [OF g3]
    have cp: "cp = (case member ?C delta of None \<Rightarrow> JNull | Some w \<Rightarrow> w)"
      by simp
    have spec: "delta_content chunk = Option.bind (Option.bind (member ?D choice) (member ?C)) nonempty_text"
      by (simp add: delta_content_def mem first)
    have path: "Option.bind (member ?D choice) (member ?C) = member ?C delta"
    proof (cases "truthy d")
      case True
      with d show ?thesis by (auto simp: delta_def split: option.splits)
    next
      case False
      with d have "Option.bind (member ?D choice) (member ?C) = None"
        by (auto simp: falsy_member split: option.splits)
      with False show ?thesis by (simp add: dict_get_def delta_def)
    qed
    from assms g1 True i g2 g3
    have rest: "(if truthy cp
                 then (case normalize_value cp of Inl e \<Rightarrow> Inl e | Inr t \<Rightarrow> Inr (Some t))
                 else Inr None) = Inr p"
      by (simp add: chunk_piece_def Let_def delta_def)
    show ?thesis
    proof (cases "truthy cp")
      case False
      with rest have "p = None"
        by simp
      moreover from False cp have "Option.bind (member ?C delta) nonempty_text = None"
        by (auto simp: falsy_nonempty_text split: option.splits)
      ultimately show ?thesis
        by (simp add: spec path)
    next
      case tcp: True
      with cp have mc: "member ?C delta = Some cp"
        by (auto split: option.splits)
      from rest tcp obtain t where n: "normalize_value cp = Inr t" and p: "p = Some t"
        by (auto split: sum.splits)
      from normalize_value_Inr [OF n tcp] obtain f where "nonempty_text cp = Some f" "t = renormalized f"
        by auto
      with p show ?thesis
        by (simp add: spec path mc)
    qed
  qed
qed

section \<open>One pass through the loop, and the loop\<close>

lemma strip_data_prefix_frame: "strip_data_prefix l = Inr (frame_text l)"
  by (simp add: strip_data_prefix_eq frame_text_def)

lemma loop_body_eq:
  "loop_body s l =
     (if l = [] then Continue s
      else if is_sentinel l then Break s
      else
        (case json_loads (frame_text l) of
           Inl e \<Rightarrow> Continue (log_line s (frame_text l))
         | Inr chunk \<Rightarrow>
             (case chunk_piece chunk of
                Inl e \<Rightarrow> Raise e (log_placeholder (log_line s (frame_text l)))
              | Inr None \<Rightarrow> Continue (log_line s (frame_text l))
              | Inr (Some t) \<Rightarrow>
                  Continue ((log_line s (frame_text l))\<lparr>text_buffer := text_buffer s @ [t]\<rparr>))))"
  by (auto simp: loop_body_def strip_data_prefix_frame is_sentinel_def Let_def log_line_def
           dest: json_loads_error split: sum.splits option.splits)

lemma not_sentinel_Nil: "\<not> is_sentinel []"
  by (simp add: is_sentinel_def frame_text_def py_startswith_def ustr_def)

lemma loop_body_Break: "loop_body s l = Break s' \<longleftrightarrow> is_sentinel l \<and> s' = s"
  by (auto simp: loop_body_eq not_sentinel_Nil split: sum.splits option.splits)

lemma loop_body_Continue:
  assumes "loop_body s l = Continue s'"
  shows "\<not> is_sentinel l"
    and "text_buffer s' = text_buffer s @ map renormalized (List.map_filter fragment_of [l])"
    and "raw_lines s' = raw_lines s @ map frame_text (filter (\<lambda>l. l \<noteq> []) [l])"
    and "log_placeholder s' = (if l = [] then log_placeholder s else Some (log_text (raw_lines s')))"
  using assms
  by (auto simp: loop_body_eq not_sentinel_Nil fragment_of_def log_line_def
           Let_def
           dest: chunk_piece_Inr split: sum.splits option.splits if_splits)

lemma stream_loop_Inr:
  assumes "stream_loop s src = Inr (s', rest)"
  shows "text_buffer s' = text_buffer s @ map renormalized (List.map_filter fragment_of (arrived src))"
    and "raw_lines s' = raw_lines s @ map frame_text (filter (\<lambda>l. l \<noteq> []) (arrived src))"
    and "rest = after_sentinel src"
  using assms
proof (induction src arbitrary: s)
  case Nil
  {
    case 1 then show ?case by simp
  next
    case 2 then show ?case by simp
  next
    case 3 then show ?case by simp
  }
next
  case (Cons r src)
  {
    case 1
    show ?case
    proof (cases r)
      case Drop
      with 1 show ?thesis by simp
    next
      case (Line l)
      show ?thesis
      proof (cases "loop_body s l")
        case (Continue s1)
        with 1 Line have "stream_loop s1 src = Inr (s', rest)" by simp
        from Cons.IH(1) [OF this] loop_body_Continue(1,2) [OF Continue] Line
        show ?thesis by (simp add: List.map_filter_simps split: option.splits)
      next
        case (Break s1)
        with 1 Line loop_body_Break [of s l s1] show ?thesis by simp
      next
        case (Raise e shown)
        with 1 Line show ?thesis by simp
      qed
    qed
  next
    case 2
    show ?case
    proof (cases r)
      case Drop
      with 2 show ?thesis by simp
    next
      case (Line l)
      show ?thesis
      proof (cases "loop_body s l")
        case (Continue s1)
        with 2 Line have "stream_loop s1 src = Inr (s', rest)" by simp
        from Cons.IH(2) [OF this] loop_body_Continue(1,3) [OF Continue] Line
        show ?thesis by simp
      next
        case (Break s1)
        with 2 Line loop_body_Break [of s l s1] show ?thesis by simp
      next
        case (Raise e shown)
        with 2 Line show ?thesis by simp
      qed
    qed
  next
    case 3
    show ?case
    proof (cases r)
      case Drop
      with 3 show ?thesis by simp
    next
      case (Line l)
      show ?thesis
      proof (cases "loop_body s l")
        case (Continue s1)
        with 3 Line have "stream_loop s1 src = Inr (s', rest)" by simp
        from Cons.IH(3) [OF this] loop_body_Continue(1) [OF Continue] Line
        show ?thesis by simp
      next
        case (Break s1)
        with 3 Line loop_body_Break [of s l s1] show ?thesis by simp
      next
        case (Raise e shown)
        with 3 Line show ?thesis by simp
      qed
    qed
  }
qed

section \<open>Concrete sessions\<close>

text \<open>
  The frames of the round trip of the specification, and the definitions that the
  simplifier unfolds to run the model on a concrete input.
\<close>

definition frame_A :: ustr where
  "frame_A = ustr ''data: {\"choices\":[{\"delta\":{\"content\":\"A\"}}]}''"

definition frame_B :: ustr where
  "frame_B = ustr ''data: {\"choices\":[{\"delta\":{\"content\":\"B\"}}]}''"

definition example_AB :: "read list" where
  "example_AB = [Line frame_A, Line frame_B, Line (ustr ''data: [DONE]'')]"

definition result_AB :: session where
  "result_AB =
     \<lparr>final_text = ustr ''AB'',
      log_lines = [drop 6 frame_A, drop 6 frame_B],
      log_shown = Some (drop 6 frame_A @ [10] @ drop 6 frame_B),
      candidate = None, class_of = NoLink, unread = []\<rparr>"

lemmas eval_defs =
  ustr_def skip_ws_def json_ws_def py_startswith_def match_number_def number_tail_def
  is_digit_def digits_val_def json_loads_def scanner_simps
  stream_session_def init_state_def loop_body_def log_line_def strip_data_prefix_def py_item_def
  py_strip_def py_isspace_def log_text_def py_last_n_def chunk_piece_def dict_get_def
  normalize_stream_text_def encode_latin1_def decode_utf8_def resolve_text_def
  extract_first_url_def match_url_at_def str_truthy_def py_endswith_any_def py_endswith_def
  py_lower_def lower_cp_def video_suffixes_def Let_def

lemma example_AB_session: "stream_session example_AB = Inr result_AB"
  by (simp add: example_AB_def result_AB_def frame_A_def frame_B_def eval_defs)

section \<open>The accumulated text (claim C3)\<close>

text \<open>
  Claim C3. The final text of a streaming session is the concatenation, in the order of
  arrival and with nothing left out, moved or merged, of the normalised non-empty
  \<open>delta.content\<close> fragments of the lines read before the session ended, with the
  whitespace at both ends of the whole taken off. \<open>List.map_filter\<close> keeps the order of
  the lines and every fragment; the session is one that ends without an exception, the
  only kind that has a final text.
\<close>

theorem stream_text_concat:
  assumes "stream_session src = Inr r"
  shows "final_text r =
           py_strip (concat (map renormalized (List.map_filter fragment_of (arrived src))))"
proof -
  from assms obtain s rest where loop: "stream_loop init_state src = Inr (s, rest)"
    and r: "final_text r = py_strip (concat (text_buffer s))"
    by (auto simp: stream_session_def Let_def split: sum.splits prod.splits)
  from stream_loop_Inr(1) [OF loop] have "text_buffer s =
      map renormalized (List.map_filter fragment_of (arrived src))"
    by (simp add: init_state_def)
  with r show ?thesis by simp
qed

text \<open>
  The round trip of the specification: the frames with the fragments \<open>A\<close> and \<open>B\<close>,
  then the sentinel, give the text \<open>AB\<close>.
\<close>

theorem stream_text_concat_witness:
  "stream_session example_AB = Inr result_AB \<and>
   final_text result_AB =
     py_strip (concat (map renormalized (List.map_filter fragment_of (arrived example_AB)))) \<and>
   final_text result_AB = ustr ''AB''"
  using stream_text_concat [OF example_AB_session] example_AB_session
  by (simp add: result_AB_def)

section \<open>Facts about the loop\<close>

lemma stream_loop_shown:
  assumes "stream_loop s src = Inr (s', rest)"
    and "log_placeholder s = shown_log (raw_lines s)"
  shows "log_placeholder s' = shown_log (raw_lines s')"
  using assms
proof (induction src arbitrary: s)
  case Nil
  then show ?case by simp
next
  case (Cons r src)
  show ?case
  proof (cases r)
    case Drop
    with Cons.prems show ?thesis by simp
  next
    case (Line l)
    show ?thesis
    proof (cases "loop_body s l")
      case (Continue s1)
      with Cons.prems Line have loop: "stream_loop s1 src = Inr (s', rest)" by simp
      from loop_body_Continue(3,4) [OF Continue] Cons.prems(2)
      have "log_placeholder s1 = shown_log (raw_lines s1)"
        by (auto simp: shown_log_def)
      from Cons.IH [OF loop this] show ?thesis .
    next
      case (Break s1)
      with Cons.prems Line loop_body_Break [of s l s1] show ?thesis by simp
    next
      case (Raise e shown)
      with Cons.prems Line show ?thesis by simp
    qed
  qed
qed

lemma arrived_no_sentinel:
  "\<forall>l\<in>set ls. \<not> is_sentinel l \<Longrightarrow> arrived (map Line ls) = ls"
  by (induction ls) auto

lemma stream_loop_append:
  assumes "\<forall>l\<in>set ls. \<not> is_sentinel l"
  shows "stream_loop s (map Line ls @ ys) =
           (case stream_loop s (map Line ls) of
              Inl err \<Rightarrow> Inl err
            | Inr (s', u) \<Rightarrow> stream_loop s' ys)"
  using assms
proof (induction ls arbitrary: s)
  case Nil
  then show ?case by simp
next
  case (Cons l ls)
  show ?case
  proof (cases "loop_body s l")
    case (Continue s1)
    with Cons show ?thesis by simp
  next
    case (Break s1)
    with Cons.prems loop_body_Break [of s l s1] show ?thesis by simp
  next
    case (Raise e shown)
    then show ?thesis by simp
  qed
qed

lemma stream_loop_plain:
  assumes "\<forall>l\<in>set ls. \<not> is_sentinel l \<and> json_loads (frame_text l) = Inl JSONDecodeError"
  shows "\<exists>s'. stream_loop s (map Line ls) = Inr (s', [])"
  using assms
proof (induction ls arbitrary: s)
  case Nil
  then show ?case by simp
next
  case (Cons l ls)
  then have "\<exists>s1. loop_body s l = Continue s1"
    by (simp add: loop_body_eq)
  then obtain s1 where "loop_body s l = Continue s1" ..
  with Cons.IH [of s1] Cons.prems show ?case by simp
qed

lemma not_sentinel_A: "\<not> is_sentinel frame_A" and not_sentinel_B: "\<not> is_sentinel frame_B"
  by (simp_all add: is_sentinel_def frame_text_def frame_A_def frame_B_def ustr_def
        py_startswith_def py_strip_def py_isspace_def)

lemma is_sentinel_iff:
  "is_sentinel l \<longleftrightarrow>
     l = ustr ''[DONE]'' \<or>
     (py_startswith l (ustr ''data:'') \<and> py_strip (drop 5 l) = ustr ''[DONE]'')"
proof -
  have "\<not> py_startswith (ustr ''[DONE]'') (ustr ''data:'')"
    by (simp add: py_startswith_def ustr_def)
  then show ?thesis
    by (auto simp: is_sentinel_def frame_text_def)
qed

lemma strip_blank:
  assumes "list_all py_isspace t"
  shows "py_strip t = []"
proof -
  from assms have d: "dropWhile py_isspace t = []"
    by (induction t) simp_all
  show ?thesis
    unfolding py_strip_def d by simp
qed

lemma blank_not_data:
  assumes "l \<noteq> []" and "list_all py_isspace l"
  shows "\<not> py_startswith l (ustr ''data:'')" and "l \<noteq> ustr ''[DONE]''"
proof -
  from assms obtain c cs where l: "l = c # cs" and c: "py_isspace c"
    by (cases l) auto
  from c have "c \<noteq> 100" and "c \<noteq> 91"
    by (auto simp: py_isspace_def)
  then show "\<not> py_startswith l (ustr ''data:'')" and "l \<noteq> ustr ''[DONE]''"
    by (auto simp: l py_startswith_def ustr_def)
qed

lemma x_line: "\<not> is_sentinel (ustr ''x'') \<and> json_loads (frame_text (ustr ''x'')) = Inl JSONDecodeError"
  by (simp add: is_sentinel_def frame_text_def eval_defs)

lemma frames_replicate_x: "frames (replicate n (ustr ''x'')) = replicate n (ustr ''x'')"
  by (induction n) (simp_all add: frames_def frame_text_def ustr_def py_startswith_def)

lemma last_n_suffix: "suffix (py_last_n n xs) xs" and last_n_length: "length (py_last_n n xs) = min n (length xs)"
  by (auto simp: py_last_n_def suffix_drop)

section \<open>Frames of an unexpected shape (claim C1)\<close>

text \<open>
  Claim C1 says that a line which is valid JSON without the expected shape is absorbed
  without an exception. The line \<open>data: null\<close> is logged, decodes to \<open>None\<close>, and the call
  \<open>chunk.get("choices", [])\<close> on it raises \<open>AttributeError\<close>: the exception leaves the loop,
  the frame behind it is never read and the session has no text. (A line that is not
  valid JSON is absorbed, see \<open>loop_body_eq\<close>; the non-streaming branch guards the same
  call with \<open>isinstance(data, dict)\<close>.)
\<close>

theorem malformed_frame_raises:
  "stream_session [Line (ustr ''data: null''), Line frame_A] =
     Inl (AttributeError, Some (ustr ''null''))"
  by (simp add: frame_A_def eval_defs)

section \<open>The sentinel (claim C4)\<close>

text \<open>
  Claim C4 as it is worded trims the whitespace around every line before the comparison
  with \<open>[DONE]\<close>. The code trims inside the branch of the \<open>data:\<close> prefix only: the line
  \<open>[DONE]\<close> followed by a space passes the sentinel test of the claim, and the session
  nevertheless logs it and reads on to the next frame, whose fragment becomes the text.
\<close>

theorem sentinel_cex:
  "claimed_sentinel (ustr ''[DONE] '') \<and>
   stream_session [Line (ustr ''[DONE] ''), Line frame_A] =
     Inr \<lparr>final_text = ustr ''A'',
          log_lines = [ustr ''[DONE] '', drop 6 frame_A],
          log_shown = Some (ustr ''[DONE] '' @ [10] @ drop 6 frame_A),
          candidate = None, class_of = NoLink, unread = []\<rparr>"
  by (simp add: claimed_sentinel_def frame_A_def eval_defs)

text \<open>
  Claim C4, amended. A sentinel line is the line \<open>[DONE]\<close> itself, or a line that begins
  with \<open>data:\<close> and whose remainder, trimmed of the whitespace around it, is \<open>[DONE]\<close>; a
  line without the prefix is compared untrimmed. On a sentinel line the loop ends at
  once, with its variables as they are and every later read not made. No other line
  makes the loop \<open>break\<close>, and a loop that ends without an exception leaves unread exactly
  the reads behind the first sentinel line (none when there is no sentinel line).
\<close>

theorem sentinel_ends_session:
  "(is_sentinel l \<longleftrightarrow>
      l = ustr ''[DONE]'' \<or>
      (py_startswith l (ustr ''data:'') \<and> py_strip (drop 5 l) = ustr ''[DONE]'')) \<and>
   (is_sentinel l \<longrightarrow> stream_loop s (Line l # rest) = Inr (s, rest)) \<and>
   (\<not> is_sentinel l \<longrightarrow> loop_body s l \<noteq> Break s1) \<and>
   (stream_loop s src = Inr (s', rest') \<longrightarrow> rest' = after_sentinel src)"
proof (intro conjI impI)
  show "is_sentinel l \<longleftrightarrow>
      l = ustr ''[DONE]'' \<or>
      (py_startswith l (ustr ''data:'') \<and> py_strip (drop 5 l) = ustr ''[DONE]'')"
    by (rule is_sentinel_iff)
next
  assume "is_sentinel l"
  then have "loop_body s l = Break s"
    by (simp add: loop_body_Break)
  then show "stream_loop s (Line l # rest) = Inr (s, rest)"
    by simp
next
  assume "\<not> is_sentinel l"
  then show "loop_body s l \<noteq> Break s1"
    by (simp add: loop_body_Break)
next
  assume "stream_loop s src = Inr (s', rest')"
  then show "rest' = after_sentinel src"
    by (rule stream_loop_Inr(3))
qed

text \<open>
  A sentinel with whitespace on both sides stops the loop in front of a failing read; a
  \<open>[DONE]\<close> followed by a space without the prefix does not; and behind the round trip of
  the specification one more frame stays unread.
\<close>

theorem sentinel_ends_session_witness:
  "is_sentinel (ustr ''data:  [DONE] '') \<and>
   stream_loop init_state [Line (ustr ''data:  [DONE] ''), Drop, Line frame_A] =
     Inr (init_state, [Drop, Line frame_A]) \<and>
   \<not> is_sentinel (ustr ''[DONE] '') \<and>
   loop_body init_state (ustr ''[DONE] '') \<noteq> Break init_state \<and>
   after_sentinel (example_AB @ [Line frame_A]) = [Line frame_A] \<and>
   stream_loop init_state (example_AB @ [Line frame_A]) =
     Inr (\<lparr>text_buffer = [ustr ''A'', ustr ''B''],
           raw_lines = [drop 6 frame_A, drop 6 frame_B],
           log_placeholder = Some (drop 6 frame_A @ [10] @ drop 6 frame_B)\<rparr>, [Line frame_A])"
proof -
  have a: "is_sentinel (ustr ''data:  [DONE] '')"
    by (simp add: is_sentinel_def frame_text_def ustr_def py_startswith_def py_strip_def
          py_isspace_def)
  have b: "\<not> is_sentinel (ustr ''[DONE] '')"
    by (simp add: is_sentinel_def frame_text_def ustr_def py_startswith_def)
  have c: "stream_loop init_state (example_AB @ [Line frame_A]) =
     Inr (\<lparr>text_buffer = [ustr ''A'', ustr ''B''],
           raw_lines = [drop 6 frame_A, drop 6 frame_B],
           log_placeholder = Some (drop 6 frame_A @ [10] @ drop 6 frame_B)\<rparr>, [Line frame_A])"
    by (simp add: example_AB_def frame_A_def frame_B_def eval_defs)
  note t1 = sentinel_ends_session [of "ustr ''data:  [DONE] ''" init_state "[Drop, Line frame_A]"]
  note t2 = sentinel_ends_session [of "ustr ''[DONE] ''" init_state _ init_state]
  note t3 = sentinel_ends_session [of _ init_state _ _ "example_AB @ [Line frame_A]"]
  from a t1 have "stream_loop init_state [Line (ustr ''data:  [DONE] ''), Drop, Line frame_A] =
     Inr (init_state, [Drop, Line frame_A])"
    by blast
  moreover from b t2 have "loop_body init_state (ustr ''[DONE] '') \<noteq> Break init_state"
    by blast
  moreover from c t3 have "after_sentinel (example_AB @ [Line frame_A]) = [Line frame_A]"
    by (metis c)
  ultimately show ?thesis
    using a b c by simp
qed

section \<open>A failing transport (claim C6)\<close>

text \<open>
  Claim C6 says that the text and the log accumulated before a failure of the transport
  are returned with the error. The loop runs in no \<open>try\<close> block: the two frames that give
  the text \<open>AB\<close> when the stream simply ends give no text at all when the read behind
  them fails. The exception leaves \<open>main\<close>, and only the log already shown remains.
\<close>

theorem transport_failure_cex:
  "stream_session [Line frame_A, Line frame_B] =
     Inr \<lparr>final_text = ustr ''AB'',
          log_lines = [drop 6 frame_A, drop 6 frame_B],
          log_shown = Some (drop 6 frame_A @ [10] @ drop 6 frame_B),
          candidate = None, class_of = NoLink, unread = []\<rparr> \<and>
   stream_session [Line frame_A, Line frame_B, Drop] =
     Inl (RequestException, Some (drop 6 frame_A @ [10] @ drop 6 frame_B))"
  by (simp add: frame_A_def frame_B_def eval_defs)

text \<open>
  Claim C6, amended. When a read fails before any sentinel line, the session ends with
  an exception and yields no accumulated text: the exception of an earlier frame if one
  raised, otherwise the exception of the transport. \<open>text_buffer\<close> and \<open>raw_lines\<close> are
  lost with the frame of \<open>main\<close>; what remains is the placeholder of the log, which
  shows the frames read before the failure.
\<close>

theorem transport_failure_discards_text:
  assumes "\<forall>l\<in>set ls. \<not> is_sentinel l"
  shows "stream_session (map Line ls @ Drop # rest) =
           (case stream_loop init_state (map Line ls) of
              Inl err \<Rightarrow> Inl err
            | Inr (s, u) \<Rightarrow> Inl (RequestException, shown_log (frames ls)))"
proof (cases "stream_loop init_state (map Line ls)")
  case (Inl err)
  with assms show ?thesis
    by (simp add: stream_session_def stream_loop_append)
next
  case (Inr p)
  then obtain s u where loop: "stream_loop init_state (map Line ls) = Inr (s, u)"
    by (cases p) auto
  from stream_loop_Inr(2) [OF loop] assms have "raw_lines s = frames ls"
    by (simp add: init_state_def frames_def arrived_no_sentinel)
  moreover from stream_loop_shown [OF loop] have "log_placeholder s = shown_log (raw_lines s)"
    by (simp add: init_state_def shown_log_def)
  ultimately show ?thesis
    using assms loop by (simp add: stream_session_def stream_loop_append)
qed

theorem transport_failure_witness:
  "\<not> is_sentinel frame_A \<and> \<not> is_sentinel frame_B \<and>
   stream_session (map Line [frame_A, frame_B] @ Drop # [Line frame_A]) =
     Inl (RequestException, shown_log (frames [frame_A, frame_B]))"
proof -
  have h: "\<forall>l\<in>set [frame_A, frame_B]. \<not> is_sentinel l"
    by (simp add: not_sentinel_A not_sentinel_B)
  have "stream_loop init_state (map Line [frame_A, frame_B]) =
          Inr (\<lparr>text_buffer = [ustr ''A'', ustr ''B''],
                raw_lines = [drop 6 frame_A, drop 6 frame_B],
                log_placeholder = Some (drop 6 frame_A @ [10] @ drop 6 frame_B)\<rparr>, [])"
    by (simp add: frame_A_def frame_B_def eval_defs)
  with transport_failure_discards_text [OF h, of "[Line frame_A]"] show ?thesis
    by (simp add: not_sentinel_A not_sentinel_B)
qed

section \<open>Blank lines (claim C7)\<close>

text \<open>
  Claim C7 says that whitespace-only lines and \<open>data:\<close> lines with a blank remainder add
  nothing to the log. The loop skips a line only if it is empty before the prefix is
  taken off: a line of two spaces and the line \<open>data:\<close> followed by two spaces leave the
  two entries \<open>"  "\<close> and \<open>""\<close> in the log, and the placeholder shows them.
\<close>

theorem blank_lines_cex:
  "stream_session [Line (ustr ''  ''), Line (ustr ''data:  '')] =
     Inr \<lparr>final_text = [],
          log_lines = [ustr ''  '', []],
          log_shown = Some (ustr ''  '' @ [10]),
          candidate = None, class_of = NoLink, unread = []\<rparr>"
  by (simp add: eval_defs)

text \<open>
  Claim C7, amended. An empty line changes nothing. A whitespace-only line that is not
  empty, and a line made of the \<open>data:\<close> prefix and a remainder that is empty once it is
  trimmed, add nothing to the accumulated text, and each adds one entry to the log: the
  line itself, respectively the empty string.
\<close>

theorem blank_lines:
  "loop_body s [] = Continue s \<and>
   (l \<noteq> [] \<and> list_all py_isspace l \<longrightarrow> loop_body s l = Continue (log_line s l)) \<and>
   (py_startswith l (ustr ''data:'') \<and> list_all py_isspace (drop 5 l) \<longrightarrow>
      loop_body s l = Continue (log_line s [])) \<and>
   text_buffer (log_line s f) = text_buffer s \<and>
   raw_lines (log_line s f) = raw_lines s @ [f]"
proof (intro conjI impI)
  show "loop_body s [] = Continue s"
    by (simp add: loop_body_def)
next
  assume a: "l \<noteq> [] \<and> list_all py_isspace l"
  with blank_not_data [of l] have "frame_text l = l" and "\<not> is_sentinel l"
    by (simp_all add: frame_text_def is_sentinel_def)
  with a json_loads_blank [of l] show "loop_body s l = Continue (log_line s l)"
    by (simp add: loop_body_eq)
next
  assume a: "py_startswith l (ustr ''data:'') \<and> list_all py_isspace (drop 5 l)"
  then have f: "frame_text l = []"
    by (simp add: frame_text_def strip_blank)
  then have "\<not> is_sentinel l"
    by (simp add: is_sentinel_def ustr_def)
  moreover from a have "l \<noteq> []"
    by (auto dest: startswith_data_nonempty)
  moreover have "json_loads [] = Inl JSONDecodeError"
    by (simp add: json_loads_blank)
  ultimately show "loop_body s l = Continue (log_line s [])"
    using f by (simp add: loop_body_eq)
next
  show "text_buffer (log_line s f) = text_buffer s"
    by (simp add: log_line_def Let_def)
next
  show "raw_lines (log_line s f) = raw_lines s @ [f]"
    by (simp add: log_line_def Let_def)
qed

theorem blank_lines_witness:
  "loop_body init_state (ustr ''  '') = Continue (log_line init_state (ustr ''  '')) \<and>
   loop_body init_state (ustr ''data:  '') = Continue (log_line init_state []) \<and>
   raw_lines (log_line init_state []) = [[]]"
proof -
  have a: "ustr ''  '' \<noteq> [] \<and> list_all py_isspace (ustr ''  '')"
    by (simp add: ustr_def py_isspace_def)
  have b: "py_startswith (ustr ''data:  '') (ustr ''data:'') \<and>
           list_all py_isspace (drop 5 (ustr ''data:  ''))"
    by (simp add: ustr_def py_isspace_def py_startswith_def)
  from a blank_lines [of init_state "ustr ''  ''"]
  have "loop_body init_state (ustr ''  '') = Continue (log_line init_state (ustr ''  ''))"
    by blast
  moreover from b blank_lines [of init_state "ustr ''data:  ''"]
  have "loop_body init_state (ustr ''data:  '') = Continue (log_line init_state [])"
    by blast
  moreover from blank_lines [of init_state _ "[]"]
  have "raw_lines (log_line init_state []) = [[]]"
    by (simp add: init_state_def)
  ultimately show ?thesis by simp
qed

section \<open>The log (claim C9)\<close>

text \<open>
  Claim C9 says that the log buffer holds at most the 40 latest frames. \<open>raw_lines\<close> is
  only ever appended to: after 41 lines that are not JSON it holds 41 entries.
\<close>

theorem log_buffer_cex:
  "\<not> isl (stream_session (map Line (replicate 41 (ustr ''x'')))) \<and>
   length (log_lines (projr (stream_session (map Line (replicate 41 (ustr ''x'')))))) = 41"
proof -
  let ?ls = "replicate 41 (ustr ''x'')"
  have no: "\<forall>l\<in>set ?ls. \<not> is_sentinel l \<and> json_loads (frame_text l) = Inl JSONDecodeError"
    using x_line by simp
  from stream_loop_plain [OF no] obtain s' where
    loop: "stream_loop init_state (map Line ?ls) = Inr (s', [])" ..
  from no have "arrived (map Line ?ls) = ?ls"
    by (intro arrived_no_sentinel) simp
  with stream_loop_Inr(2) [OF loop] have "raw_lines s' = frames ?ls"
    by (simp add: init_state_def frames_def)
  then have "length (raw_lines s') = 41"
    by (simp add: frames_replicate_x)
  with loop show ?thesis
    by (simp add: stream_session_def Let_def split: prod.splits)
qed

text \<open>
  Claim C9, amended. The list \<open>raw_lines\<close> keeps every frame of the session, in order.
  What is bounded is the display: after every logged frame the placeholder shows the
  latest 40 entries of the list (all of them when there are fewer), joined by newlines,
  or a fixed replacement text when that join is empty.
\<close>

theorem log_display_bounded:
  assumes "stream_session src = Inr r"
  shows "log_lines r = frames (arrived src) \<and>
         log_shown r = shown_log (log_lines r) \<and>
         (\<exists>es. suffix es (log_lines r) \<and> length es = min 40 (length (log_lines r)) \<and>
               log_text (log_lines r) =
                 (if py_join [10] es \<noteq> [] then py_join [10] es else [40, 31354, 41]))"
proof -
  from assms obtain s rest where loop: "stream_loop init_state src = Inr (s, rest)"
    and r: "log_lines r = raw_lines s" "log_shown r = log_placeholder s"
    by (auto simp: stream_session_def Let_def split: sum.splits prod.splits)
  from stream_loop_Inr(2) [OF loop] r have "log_lines r = frames (arrived src)"
    by (simp add: init_state_def frames_def)
  moreover from stream_loop_shown [OF loop] r have "log_shown r = shown_log (log_lines r)"
    by (simp add: init_state_def shown_log_def)
  moreover have "suffix (py_last_n 40 (log_lines r)) (log_lines r) \<and>
      length (py_last_n 40 (log_lines r)) = min 40 (length (log_lines r)) \<and>
      log_text (log_lines r) =
        (if py_join [10] (py_last_n 40 (log_lines r)) \<noteq> []
         then py_join [10] (py_last_n 40 (log_lines r)) else [40, 31354, 41])"
    by (simp add: last_n_suffix last_n_length log_text_def Let_def)
  ultimately show ?thesis by blast
qed

theorem log_display_bounded_witness:
  "stream_session example_AB = Inr result_AB \<and>
   log_lines result_AB = frames (arrived example_AB) \<and>
   log_shown result_AB = shown_log (log_lines result_AB)"
  using log_display_bounded [OF example_AB_session] example_AB_session by simp

section \<open>The first link of a text (claim C10)\<close>

lemma takeWhile_nonempty: "takeWhile P xs \<noteq> [] \<longleftrightarrow> xs \<noteq> [] \<and> P (hd xs)"
  by (cases xs) auto

lemma scheme_nonspace:
  "list_all (\<lambda>c. \<not> py_isspace c) (ustr ''http://'')"
  "list_all (\<lambda>c. \<not> py_isspace c) (ustr ''https://'')"
  by (simp_all add: ustr_def py_isspace_def)

lemma scheme_lengths: "length (ustr ''https://'') = 8" "length (ustr ''http://'') = 7"
  by (simp_all add: ustr_def)

lemma scheme_codes:
  "ustr ''https://'' = [104, 116, 116, 112, 115, 58, 47, 47]"
  "ustr ''http://'' = [104, 116, 116, 112, 58, 47, 47]"
  by (simp_all add: ustr_def)

lemma schemes_differ:
  assumes "py_startswith t (ustr ''https://'')"
  shows "\<not> py_startswith t (ustr ''http://'')"
proof
  assume b: "py_startswith t (ustr ''http://'')"
  from assms have "take 8 t = ustr ''https://''"
    by (simp add: py_startswith_def scheme_lengths)
  then have a8: "take 8 t = [104, 116, 116, 112, 115, 58, 47, 47]"
    by (simp only: scheme_codes)
  from b have "take 7 t = ustr ''http://''"
    by (simp add: py_startswith_def scheme_lengths)
  then have a7: "take 7 t = [104, 116, 116, 112, 58, 47, 47]"
    by (simp only: scheme_codes)
  have "take 8 t ! 4 = t ! 4" and "take 7 t ! 4 = t ! 4"
    by simp_all
  then have "t ! 4 = 115" and "t ! 4 = 58"
    unfolding a8 a7 by simp_all
  then show False by simp
qed

lemma run_split:
  assumes "take n t = p" and "list_all (\<lambda>c. \<not> py_isspace c) p"
  shows "take n t @ takeWhile (\<lambda>c. \<not> py_isspace c) (drop n t) = nonspace_run t"
    and "dropWhile (\<lambda>c. \<not> py_isspace c) (drop n t) = dropWhile (\<lambda>c. \<not> py_isspace c) t"
proof -
  let ?P = "\<lambda>c. \<not> py_isspace c"
  from assms have all: "\<forall>x\<in>set (take n t). ?P x"
    by (simp add: list_all_iff)
  have "takeWhile ?P t = takeWhile ?P (take n t @ drop n t)" by simp
  also have "\<dots> = take n t @ takeWhile ?P (drop n t)"
    using all by (intro takeWhile_append2) auto
  finally show "take n t @ takeWhile ?P (drop n t) = nonspace_run t"
    by (simp add: nonspace_run_def)
  have "dropWhile ?P t = dropWhile ?P (take n t @ drop n t)" by simp
  also have "\<dots> = dropWhile ?P (drop n t)"
    using all by (intro dropWhile_append2) auto
  finally show "dropWhile ?P (drop n t) = dropWhile ?P t" by simp
qed

lemma match_url_at_eq:
  "match_url_at t =
     (if url_at t then Some (nonspace_run t, dropWhile (\<lambda>c. \<not> py_isspace c) t) else None)"
proof -
  let ?P = "\<lambda>c. \<not> py_isspace c"
  have body: "takeWhile ?P (drop n t) = [] \<longleftrightarrow> \<not> (n < length t \<and> \<not> py_isspace (t ! n))" for n
    using takeWhile_nonempty [of ?P "drop n t"] by (auto simp: hd_drop_conv_nth)
  note l8 = scheme_lengths(1) and l7 = scheme_lengths(2)
  show ?thesis
  proof (cases "py_startswith t (ustr ''https://'')")
    case True
    then have t8: "take 8 t = ustr ''https://''"
      by (simp add: py_startswith_def l8)
    from True schemes_differ have "url_at t \<longleftrightarrow> 8 < length t \<and> \<not> py_isspace (t ! 8)"
      by (auto simp: url_at_def)
    with True run_split [OF t8 scheme_nonspace(2)] show ?thesis
      by (simp add: match_url_at_def Let_def body)
  next
    case False
    show ?thesis
    proof (cases "py_startswith t (ustr ''http://'')")
      case True
      then have t7: "take 7 t = ustr ''http://''"
        by (simp add: py_startswith_def l7)
      from True False have "url_at t \<longleftrightarrow> 7 < length t \<and> \<not> py_isspace (t ! 7)"
        by (auto simp: url_at_def)
      with True False run_split [OF t7 scheme_nonspace(1)] show ?thesis
        by (simp add: match_url_at_def Let_def body)
    next
      case f: False
      with False show ?thesis
        by (simp add: match_url_at_def url_at_def)
    qed
  qed
qed

lemma extract_first_url_Nil: "extract_first_url [] = None"
  by (simp add: extract_first_url_def)

lemma extract_first_url_Cons:
  "extract_first_url (c # cs) =
     (if url_at (c # cs) then Some (nonspace_run (c # cs)) else extract_first_url cs)"
  by (simp add: extract_first_url_def match_url_at_eq)

lemma extract_none:
  "(\<forall>i<length tx. \<not> url_at (drop i tx)) \<Longrightarrow> extract_first_url tx = None"
proof (induction tx)
  case Nil
  show ?case by (rule extract_first_url_Nil)
next
  case (Cons c cs)
  from Cons.prems have "\<not> url_at (c # cs)"
    by force
  moreover have "\<forall>i<length cs. \<not> url_at (drop i cs)"
  proof (intro allI impI)
    fix i assume "i < length cs"
    with Cons.prems have "\<not> url_at (drop (Suc i) (c # cs))"
      by (metis Suc_less_eq length_Cons)
    then show "\<not> url_at (drop i cs)" by simp
  qed
  ultimately show ?case
    using Cons.IH by (simp add: extract_first_url_Cons)
qed

lemma extract_leftmost:
  assumes "i < length tx" and "url_at (drop i tx)" and "\<forall>j<i. \<not> url_at (drop j tx)"
  shows "extract_first_url tx = Some (nonspace_run (drop i tx))"
  using assms
proof (induction tx arbitrary: i)
  case Nil
  then show ?case by simp
next
  case (Cons c cs)
  show ?case
  proof (cases i)
    case 0
    with Cons.prems show ?thesis
      by (simp add: extract_first_url_Cons)
  next
    case (Suc k)
    with Cons.prems have k: "k < length cs" "url_at (drop k cs)"
      by simp_all
    from Cons.prems(3) Suc have "\<not> url_at (c # cs)"
      by force
    moreover have "\<forall>j<k. \<not> url_at (drop j cs)"
    proof (intro allI impI)
      fix j assume "j < k"
      with Cons.prems(3) Suc have "\<not> url_at (drop (Suc j) (c # cs))"
        by (metis Suc_less_eq)
      then show "\<not> url_at (drop j cs)" by simp
    qed
    ultimately show ?thesis
      using Cons.IH [OF k] Suc by (simp add: extract_first_url_Cons)
  qed
qed

text \<open>
  Claim C10 says that \<open>extract_first_url\<close> returns the leftmost run of non-whitespace
  characters that begins with \<open>http://\<close> or \<open>https://\<close>, and nothing only when there is no
  such run. The text \<open>http://\<close> is such a run, and the result is \<open>None\<close>: the pattern asks
  for at least one character behind the two slashes.
\<close>

theorem first_url_cex:
  "scheme_at (ustr ''http://'') \<and>
   nonspace_run (ustr ''http://'') = ustr ''http://'' \<and>
   extract_first_url (ustr ''http://'') = None"
  by (simp add: scheme_at_def nonspace_run_def eval_defs)

text \<open>
  Claim C10, amended. \<open>extract_first_url\<close> returns nothing when at no position of the text
  \<open>http://\<close> or \<open>https://\<close> stands in front of a character that is not whitespace.
  Otherwise it returns, from the leftmost such position on (which may lie inside a longer
  word), every character up to the next whitespace or the end of the text. So characters
  directly behind a link, such as a full stop, belong to the candidate.
\<close>

theorem first_url_leftmost_run:
  "((\<forall>i<length tx. \<not> url_at (drop i tx)) \<longrightarrow> extract_first_url tx = None) \<and>
   (i < length tx \<and> url_at (drop i tx) \<and> (\<forall>j<i. \<not> url_at (drop j tx)) \<longrightarrow>
      extract_first_url tx = Some (nonspace_run (drop i tx)))"
  using extract_none [of tx] extract_leftmost [of i tx] by blast

text \<open>
  A link with a full stop behind it: the stop is part of the candidate, which then does
  not end in \<open>.mp4\<close> and is presented as an unrecognised link.
\<close>

definition text_dot :: ustr where
  "text_dot = ustr ''see https://x.com/v.mp4. now''"

lemma text_dot_url:
  "4 < length text_dot \<and> url_at (drop 4 text_dot) \<and>
   \<not> url_at (drop 0 text_dot) \<and> \<not> url_at (drop 1 text_dot) \<and>
   \<not> url_at (drop 2 text_dot) \<and> \<not> url_at (drop 3 text_dot)"
  by (simp add: text_dot_def url_at_def ustr_def py_startswith_def py_isspace_def)

theorem first_url_leftmost_run_witness:
  "extract_first_url text_dot = Some (ustr ''https://x.com/v.mp4.'') \<and>
   resolve_text text_dot = (Some (ustr ''https://x.com/v.mp4.''), UnrecognizedLink) \<and>
   extract_first_url (ustr ''no link here'') = None"
proof -
  have "\<forall>j<4. \<not> url_at (drop j text_dot)"
  proof (intro allI impI)
    fix j :: nat assume "j < 4"
    then have "j = 0 \<or> j = 1 \<or> j = 2 \<or> j = 3" by arith
    with text_dot_url show "\<not> url_at (drop j text_dot)" by auto
  qed
  with text_dot_url first_url_leftmost_run [of text_dot 4]
  have "extract_first_url text_dot = Some (nonspace_run (drop 4 text_dot))"
    by blast
  moreover have "nonspace_run (drop 4 text_dot) = ustr ''https://x.com/v.mp4.''"
    by (simp add: text_dot_def nonspace_run_def ustr_def py_isspace_def)
  moreover have "resolve_text text_dot = (Some (ustr ''https://x.com/v.mp4.''), UnrecognizedLink)"
    by (simp add: text_dot_def eval_defs)
  moreover have "\<forall>i<length (ustr ''no link here''). \<not> url_at (drop i (ustr ''no link here''))"
  proof (intro allI impI)
    fix i assume "i < length (ustr ''no link here'')"
    then have "scheme_at (drop i (ustr ''no link here'')) \<Longrightarrow> False"
      by (auto simp: scheme_at_def ustr_def py_startswith_def less_Suc_eq)
    then show "\<not> url_at (drop i (ustr ''no link here''))"
      by (auto simp: url_at_def scheme_at_def)
  qed
  with first_url_leftmost_run [of "ustr ''no link here''"]
  have "extract_first_url (ustr ''no link here'') = None"
    by blast
  ultimately show ?thesis by simp
qed

section \<open>The classification of a candidate (claim C5)\<close>

lemma py_endswith_suffix: "py_endswith s p \<longleftrightarrow> suffix p s"
proof
  assume "py_endswith s p"
  then have "drop (length s - length p) s = p"
    by (simp add: py_endswith_def)
  then show "suffix p s"
    by (metis suffix_drop)
next
  assume "suffix p s"
  then obtain pre where "s = pre @ p"
    by (auto simp: suffix_def)
  then show "py_endswith s p"
    by (simp add: py_endswith_def)
qed

lemma endswith_lower: "py_endswith (py_lower u) ext \<longleftrightarrow> ci_suffix u ext"
proof
  assume "py_endswith (py_lower u) ext"
  then have "length ext \<le> length u" and "drop (length u - length ext) (map lower_cp u) = ext"
    by (simp_all add: py_endswith_def py_lower_def)
  then have "py_lower (drop (length u - length ext) u) = ext"
    by (simp add: py_lower_def drop_map)
  then show "ci_suffix u ext"
    unfolding ci_suffix_def using suffix_drop by blast
next
  assume "ci_suffix u ext"
  then obtain tl pre where "u = pre @ tl" and "py_lower tl = ext"
    by (auto simp: ci_suffix_def suffix_def)
  then have "py_lower u = py_lower pre @ ext"
    by (simp add: py_lower_def)
  then show "py_endswith (py_lower u) ext"
    by (simp add: py_endswith_suffix suffix_def)
qed

lemma endswith_any_media: "py_endswith_any (py_lower u) video_suffixes \<longleftrightarrow> media_link u"
  by (simp add: py_endswith_any_def video_suffixes_def media_link_def endswith_lower)








section \<open>The response that is not streamed (claim C8)\<close>

lemma falsy_first_elem: "\<not> truthy v \<Longrightarrow> first_elem v = None"
  by (cases v) auto

lemma index0_first_elem: "py_index0 v = Inr c \<Longrightarrow> first_elem v = Some c"
proof (cases v)
  case (JList xs)
  assume "py_index0 v = Inr c"
  with JList show ?thesis
    by (cases xs) (auto simp: py_item_def)
next
  case (JStr t)
  assume "py_index0 v = Inr c"
  with JStr show ?thesis
    by (cases t) auto
qed auto

lemma first_item_url_Inr: "first_item_url item = Inr v \<Longrightarrow> v = field_of item"
  by (cases item) (auto simp: or_null_def split: option.splits if_splits)

lemma present_video_url_Inr:
  "present_video_url v = Inr res \<Longrightarrow> res = whole_field_link v"
  by (cases v)
     (auto simp: present_video_url_def whole_field_link_def classify_def endswith_any_media
           split: if_splits)

lemma response_video_url_Inr:
  assumes "response_video_url data = Inr v"
  shows "v = extracted_field data"
proof (cases data)
  case (JDict d)
  let ?K = "ustr ''choices''" and ?M = "ustr ''message''" and ?C = "ustr ''content''"
  define choices where "choices = or_null (Some (case member ?K data of None \<Rightarrow> JList [] | Some w \<Rightarrow> w))"
  have choices: "py_get data ?K (JList []) = Inr choices"
    by (simp add: JDict choices_def or_null_def)
  show ?thesis
  proof (cases "truthy choices")
    case False
    with assms choices JDict have "v = JNull"
      by simp
    moreover from False
    have "member ?K data = None \<or> (\<exists>w. member ?K data = Some w \<and> first_of w = None)"
      by (auto simp: choices_def or_null_def falsy_first_of split: option.splits)
    ultimately show ?thesis
      by (auto simp: extracted_field_def or_null_def)
  next
    case True
    then have mem: "member ?K data = Some choices"
      by (auto simp: choices_def or_null_def split: option.splits)
    from assms choices JDict True obtain choice where i: "py_index0 choices = Inr choice"
      by (auto split: sum.splits)
    from assms choices JDict True i obtain message
      where g2: "py_get choice ?M (JDict []) = Inr message"
      by (auto split: sum.splits)
    from py_get_Inr [OF g2] obtain cd where cd: "choice = JDict cd"
      and message: "message = (case member ?M choice of None \<Rightarrow> JDict [] | Some w \<Rightarrow> w)"
      by auto
    from index0_dict [OF i cd] have first: "first_of choices = Some choice" .
    from assms choices JDict True i g2 obtain contents
      where g3: "py_get message ?C (JList []) = Inr contents"
      by (auto split: sum.splits)
    from py_get_Inr [OF g3]
    have contents: "contents = (case member ?C message of None \<Rightarrow> JList [] | Some w \<Rightarrow> w)"
      by simp
    have path: "Option.bind (member ?M choice) (member ?C) = member ?C message"
      using message by (auto simp: dict_get_def split: option.splits)
    from assms choices JDict True i g2 g3
    have rest: "(if \<not> truthy contents then Inr JNull
                 else (case py_index0 contents of
                         Inl e \<Rightarrow> Inl e
                       | Inr first_item \<Rightarrow> first_item_url first_item)) = Inr v"
      by simp
    have spec: "extracted_field data =
        or_null (Option.bind (Option.bind (member ?C message) first_elem)
                   (\<lambda>item. Some (field_of item)))"
      by (simp add: extracted_field_def mem first path [symmetric])
    show ?thesis
    proof (cases "truthy contents")
      case False
      with rest have "v = JNull" by simp
      moreover from False contents have "Option.bind (member ?C message) first_elem = None"
        by (auto simp: falsy_first_elem split: option.splits)
      ultimately show ?thesis
        by (simp add: spec or_null_def)
    next
      case tc: True
      with contents have mc: "member ?C message = Some contents"
        by (auto split: option.splits)
      from rest tc obtain item where ix: "py_index0 contents = Inr item"
        and fi: "first_item_url item = Inr v"
        by (auto split: sum.splits)
      from index0_first_elem [OF ix] first_item_url_Inr [OF fi] show ?thesis
        by (simp add: spec mc or_null_def)
    qed
  qed
qed (use assms in \<open>auto simp: extracted_field_def or_null_def\<close>)

definition response_of :: "json \<Rightarrow> json" where
  "response_of item =
     JDict [(ustr ''choices'',
             JList [JDict [(ustr ''message'', JDict [(ustr ''content'', JList [item])])]])]"

definition url_webm :: ustr where
  "url_webm = ustr ''https://x.com/v.webm''"

lemmas response_eval =
  resolve_response_def present_video_url_def response_of_def eval_defs

text \<open>
  Claim C8 says that the candidate is the first link found in the extracted field, and
  that a field without a link gives no link. The branch never searches the field: the
  field \<open>hello\<close>, in which \<open>extract_first_url\<close> finds nothing, is presented as an
  unrecognised link, and a field with words around a \<open>.webm\<close> link is presented whole and
  not recognised.
\<close>

theorem response_link_cex:
  "resolve_response (response_of (JStr (ustr ''hello''))) =
     Inr (Some (ustr ''hello''), UnrecognizedLink) \<and>
   extract_first_url (ustr ''hello'') = None \<and>
   resolve_response (response_of (JStr (ustr ''see https://x.com/v.webm now''))) =
     Inr (Some (ustr ''see https://x.com/v.webm now''), UnrecognizedLink) \<and>
   extract_first_url (ustr ''see https://x.com/v.webm now'') = Some url_webm"
  by (simp add: url_webm_def response_eval)

text \<open>
  Claim C8, amended. Where the resolution of a decoded response ends without an
  exception, the extracted field is the value at \<open>choices[0].message.content[0]\<close> (for an
  object its \<open>url\<close>, or its \<open>text\<close> when the \<open>url\<close> is absent or empty; the element itself
  when it is a string), and the candidate is that field taken whole: no link when the
  field is absent, empty or not a string, otherwise a recognised media link or an
  unrecognised link by its ending.
\<close>

theorem response_link:
  assumes "resolve_response data = Inr res"
  shows "res = whole_field_link (extracted_field data)"
proof -
  from assms obtain v where v: "response_video_url data = Inr v"
    and p: "present_video_url v = Inr res"
    by (auto simp: resolve_response_def split: sum.splits)
  from response_video_url_Inr [OF v] present_video_url_Inr [OF p] show ?thesis
    by simp
qed

text \<open>
  The scenario of the specification: the response with the \<open>url\<close> of a \<open>.webm\<close> file
  decodes to the object below and resolves to that link, recognised.
\<close>

lemma response_webm:
  "resolve_response (response_of (JDict [(ustr ''url'', JStr url_webm)])) =
     Inr (Some url_webm, RecognizedMedia)"
  by (simp add: url_webm_def response_eval)

lemma loads_webm:
  "json_loads (ustr ''{\"choices\":[{\"message\":{\"content\":[{\"url\":\"https://x.com/v.webm\"}]}}]}'') =
     Inr (response_of (JDict [(ustr ''url'', JStr url_webm)]))"
  by (simp add: url_webm_def response_eval)

theorem response_link_witness:
  "json_loads (ustr ''{\"choices\":[{\"message\":{\"content\":[{\"url\":\"https://x.com/v.webm\"}]}}]}'') =
     Inr (response_of (JDict [(ustr ''url'', JStr url_webm)])) \<and>
   resolve_response (response_of (JDict [(ustr ''url'', JStr url_webm)])) =
     Inr (Some url_webm, RecognizedMedia) \<and>
   whole_field_link (extracted_field (response_of (JDict [(ustr ''url'', JStr url_webm)]))) =
     (Some url_webm, RecognizedMedia)"
  using response_link [OF response_webm] response_webm loads_webm by simp

end
